theory Spec2Isabelle
  imports Main
begin

section \<open>Bytes, text and exceptions\<close>

text \<open>
  Python \<open>bytes\<close> are lists of 8-bit characters. A \<open>str\<close> obtained by \<open>decode()\<close> is kept
  as its (valid) UTF-8 byte sequence, so \<open>encode()\<close> is the identity on it; the \<open>str\<close>
  methods the program uses (\<open>split\<close>, \<open>strip\<close>, \<open>lstrip\<close>, \<open>rstrip\<close> with ASCII arguments,
  comparison with ASCII literals) act on that sequence as they act on the code points,
  because in UTF-8 an ASCII byte never occurs inside a multi-byte character.
\<close>

type_synonym bytes = "char list"

abbreviation CR :: char where "CR \<equiv> CHR 0x0D"
abbreviation LF :: char where "LF \<equiv> CHR 0x0A"
abbreviation SP :: char where "SP \<equiv> CHR 0x20"

text \<open>
  The exceptions the program can raise, as values. \<open>UnicodeDecodeError\<close> and
  \<open>struct.error\<close> are kept apart from \<open>ValueError\<close>, and so is \<open>LimitOverrun\<close>, the
  \<open>ValueError\<close> that \<open>StreamReader.readline()\<close> raises for a line longer than the reader's
  limit: the program catches \<open>EOFError\<close> and \<open>OSError\<close> only, so nothing it does depends on
  which of them it is.
\<close>

datatype error = EOFError | ValueError | LimitOverrun | UnicodeDecodeError | TypeError
  | AttributeError | StructError

subsection \<open>\<open>bytes.decode()\<close>: strict UTF-8\<close>

definition cont_byte :: "nat \<Rightarrow> bool" where
  "cont_byte b = (128 \<le> b \<and> b \<le> 191)"

fun utf8_valid :: "nat list \<Rightarrow> bool" where
  "utf8_valid [] = True"
| "utf8_valid (b # bs) =
     (if b < 128 then utf8_valid bs
      else if 194 \<le> b \<and> b \<le> 223 then
        (case bs of c1 # r \<Rightarrow> cont_byte c1 \<and> utf8_valid r | _ \<Rightarrow> False)
      else if 224 \<le> b \<and> b \<le> 239 then
        (case bs of
           c1 # c2 # r \<Rightarrow>
             (if b = 224 then 160 \<le> c1 \<and> c1 \<le> 191
              else if b = 237 then 128 \<le> c1 \<and> c1 \<le> 159
              else cont_byte c1) \<and> cont_byte c2 \<and> utf8_valid r
         | _ \<Rightarrow> False)
      else if 240 \<le> b \<and> b \<le> 244 then
        (case bs of
           c1 # c2 # c3 # r \<Rightarrow>
             (if b = 240 then 144 \<le> c1 \<and> c1 \<le> 191
              else if b = 244 then 128 \<le> c1 \<and> c1 \<le> 143
              else cont_byte c1) \<and> cont_byte c2 \<and> cont_byte c3 \<and> utf8_valid r
         | _ \<Rightarrow> False)
      else False)"

definition decode :: "bytes \<Rightarrow> error + string" where
  "decode b = (if utf8_valid (map of_char b) then Inr b else Inl UnicodeDecodeError)"

subsection \<open>\<open>str\<close> methods\<close>

text \<open>\<open>s.split(sep, maxsplit)\<close> for a one-character separator.\<close>

fun split_max :: "char \<Rightarrow> nat \<Rightarrow> string \<Rightarrow> string list" where
  "split_max sep 0 s = [s]"
| "split_max sep (Suc n) s =
     (let pre = takeWhile (\<lambda>c. c \<noteq> sep) s in
      if length pre = length s then [s]
      else pre # split_max sep n (drop (length pre + 1) s))"

text \<open>\<open>s.split(sep)\<close>: no limit; a string has fewer separators than characters plus one.\<close>

definition split_all :: "char \<Rightarrow> string \<Rightarrow> string list" where
  "split_all sep s = split_max sep (length s) s"

definition lstrip :: "char list \<Rightarrow> string \<Rightarrow> string" where
  "lstrip cs s = dropWhile (\<lambda>c. c \<in> set cs) s"

definition rstrip :: "char list \<Rightarrow> string \<Rightarrow> string" where
  "rstrip cs s = rev (dropWhile (\<lambda>c. c \<in> set cs) (rev s))"

definition strip :: "char list \<Rightarrow> string \<Rightarrow> string" where
  "strip cs s = rstrip cs (lstrip cs s)"

text \<open>
  \<open>str.lower()\<close>, on the ASCII letters. The program compares lowered names only with the
  literals \<open>content-length\<close>, \<open>transfer-encoding\<close>, \<open>host\<close> and \<open>proxy-connection\<close>; no
  non-ASCII character lowers to a letter of these (only U+212A lowers to an ASCII
  letter, \<open>k\<close>), so leaving non-ASCII bytes alone decides these comparisons as Python does.
\<close>

definition lower_char :: "char \<Rightarrow> char" where
  "lower_char c =
     (case map_of (zip ''ABCDEFGHIJKLMNOPQRSTUVWXYZ'' ''abcdefghijklmnopqrstuvwxyz'') c of
        None \<Rightarrow> c | Some l \<Rightarrow> l)"

definition lower :: "string \<Rightarrow> string" where
  "lower s = map lower_char s"

subsection \<open>\<open>int(text, base)\<close>\<close>

text \<open>
  \<open>py_int\<close> is CPython's \<open>PyLong_FromString\<close>, which \<open>int(b, base)\<close> applies to the bytes
  of a \<open>bytes\<close> argument: optional ASCII white space, an optional sign, for base 16 an
  optional \<open>0x\<close> prefix (which may be followed by one underscore), digits with single
  underscores between them, optional white space. A text in a base that is not a power
  of two with more than 4300 digits (underscores not counted, leading zeros counted) is
  refused: the default \<open>int_max_str_digits\<close>, which the program does not change. \<open>None\<close> is
  \<open>ValueError\<close>.
\<close>

definition py_isspace :: "char \<Rightarrow> bool" where
  "py_isspace c = (c \<in> set [CHR 0x09, CHR 0x0A, CHR 0x0B, CHR 0x0C, CHR 0x0D, CHR 0x20])"

definition digit_value :: "char \<Rightarrow> nat option" where
  "digit_value c =
     map_of (zip ''0123456789abcdefghijklmnopqrstuvwxyz'' [0 ..< 36]) (lower_char c)"

definition is_digit :: "nat \<Rightarrow> char \<Rightarrow> bool" where
  "is_digit base c = (case digit_value c of None \<Rightarrow> False | Some d \<Rightarrow> d < base)"

text \<open>The value of a digit sequence with underscores; \<open>None\<close> for two underscores in a
  row. \<open>prev\<close> tells whether the previous character was an underscore.\<close>

fun digits_value :: "nat \<Rightarrow> bool \<Rightarrow> nat \<Rightarrow> string \<Rightarrow> nat option" where
  "digits_value base prev acc [] = (if prev then None else Some acc)"
| "digits_value base prev acc (c # cs) =
     (if c = CHR ''_'' then (if prev then None else digits_value base True acc cs)
      else case digit_value c of
             None \<Rightarrow> None
           | Some d \<Rightarrow> digits_value base False (acc * base + d) cs)"

definition max_str_digits :: int where
  "max_str_digits = 4300"

definition py_int :: "nat \<Rightarrow> string \<Rightarrow> int option" where
  "py_int base s =
     (let s1 = dropWhile py_isspace s;
          neg = (case s1 of c # _ \<Rightarrow> c = CHR ''-'' | [] \<Rightarrow> False);
          s2 = (case s1 of c # r \<Rightarrow> (if c = CHR ''+'' \<or> c = CHR ''-'' then r else s1) | [] \<Rightarrow> s1);
          s3 = (if base = 16 \<and> (take 2 s2 = ''0x'' \<or> take 2 s2 = ''0X'')
                then (case drop 2 s2 of c # r \<Rightarrow> (if c = CHR ''_'' then r else c # r) | [] \<Rightarrow> [])
                else s2);
          body = takeWhile (\<lambda>c. is_digit base c \<or> c = CHR ''_'') s3;
          rest = dropWhile py_isspace (drop (length body) s3)
      in if body = [] \<or> hd body = CHR ''_'' \<or> rest \<noteq> [] then None
         else if base \<notin> set [2, 4, 8, 16, 32]
                 \<and> int (length (filter (\<lambda>c. c \<noteq> CHR ''_'') body)) > max_str_digits then None
         else case digits_value base False 0 body of
                None \<Rightarrow> None
              | Some v \<Rightarrow> Some (if neg then - int v else int v))"

text \<open>
  For a \<open>str\<close> argument, \<open>int\<close> first rewrites the text
  (\<open>_PyUnicode_TransformDecimalAndSpaceToASCII\<close>), unless it is all ASCII: a code point
  below 127 stays, a Unicode white space becomes a space, a Unicode decimal digit becomes
  the ASCII digit of its value, and at anything else the text is cut after a \<open>?\<close> put in
  its place. The tables are those of the Unicode data of CPython 3.11 (14.0.0): the white
  space from 127 on, and the zeros of the decimal digits from 127 on, each followed by its
  nine successors.
\<close>

definition unicode_spaces :: "int list" where
  "unicode_spaces =
     [0x85, 0xA0, 0x1680, 0x2000, 0x2001, 0x2002, 0x2003, 0x2004, 0x2005, 0x2006, 0x2007,
      0x2008, 0x2009, 0x200A, 0x2028, 0x2029, 0x202F, 0x205F, 0x3000]"

definition decimal_zeros :: "int list" where
  "decimal_zeros =
     [0x660, 0x6F0, 0x7C0, 0x966, 0x9E6, 0xA66, 0xAE6, 0xB66, 0xBE6, 0xC66, 0xCE6, 0xD66,
      0xDE6, 0xE50, 0xED0, 0xF20, 0x1040, 0x1090, 0x17E0, 0x1810, 0x1946, 0x19D0, 0x1A80,
      0x1A90, 0x1B50, 0x1BB0, 0x1C40, 0x1C50, 0xA620, 0xA8D0, 0xA900, 0xA9D0, 0xA9F0,
      0xAA50, 0xABF0, 0xFF10, 0x104A0, 0x10D30, 0x11066, 0x110F0, 0x11136, 0x111D0,
      0x112F0, 0x11450, 0x114D0, 0x11650, 0x116C0, 0x11730, 0x118E0, 0x11950, 0x11C50,
      0x11D50, 0x11DA0, 0x16A60, 0x16AC0, 0x16B50, 0x1D7CE, 0x1D7D8, 0x1D7E2, 0x1D7EC,
      0x1D7F6, 0x1E140, 0x1E2F0, 0x1E950, 0x1FBF0]"

definition to_decimal :: "int \<Rightarrow> int option" where
  "to_decimal c =
     (case filter (\<lambda>z. z \<le> c \<and> c < z + 10) decimal_zeros of
        [] \<Rightarrow> None
      | z # _ \<Rightarrow> Some (c - z))"

text \<open>The code points of a \<open>str\<close>, from its UTF-8 bytes (which are valid: every \<open>str\<close> of
  the program comes from \<open>decode()\<close>).\<close>

fun code_points :: "int list \<Rightarrow> int list" where
  "code_points [] = []"
| "code_points (b # bs) =
     (if b < 128 then b # code_points bs
      else if b < 224 then
        (case bs of
           c1 # r \<Rightarrow> ((b - 192) * 64 + (c1 - 128)) # code_points r
         | _ \<Rightarrow> [])
      else if b < 240 then
        (case bs of
           c1 # c2 # r \<Rightarrow> ((b - 224) * 4096 + (c1 - 128) * 64 + (c2 - 128)) # code_points r
         | _ \<Rightarrow> [])
      else
        (case bs of
           c1 # c2 # c3 # r \<Rightarrow>
             ((b - 240) * 262144 + (c1 - 128) * 4096 + (c2 - 128) * 64 + (c3 - 128))
               # code_points r
         | _ \<Rightarrow> []))"

fun decimal_and_space_to_ascii :: "int list \<Rightarrow> string" where
  "decimal_and_space_to_ascii [] = []"
| "decimal_and_space_to_ascii (c # cs) =
     (if c < 127 then char_of c # decimal_and_space_to_ascii cs
      else if c \<in> set unicode_spaces then SP # decimal_and_space_to_ascii cs
      else case to_decimal c of
             None \<Rightarrow> ''?''
           | Some d \<Rightarrow> char_of (48 + d) # decimal_and_space_to_ascii cs)"

definition int_of_str :: "nat \<Rightarrow> string \<Rightarrow> int option" where
  "int_of_str base s =
     (let cps = code_points (map of_char s)
      in py_int base (if list_all (\<lambda>c. c < 128) cps then s
                      else decimal_and_space_to_ascii cps))"

section \<open>Streams\<close>

text \<open>
  An \<open>asyncio.StreamReader\<close>: \<open>pending\<close> are the bytes the peer sends before it closes,
  not yet consumed. \<open>read(n)\<close> returns what is buffered, at least one byte and at most
  \<open>n\<close>, and the empty string only at end of stream; how much is buffered when a call
  returns depends on the network, so \<open>avail\<close> lists, for the successive \<open>read\<close> calls, the
  number of bytes buffered when the call returns (once the list is used up, everything
  pending is buffered). \<open>read(n)\<close> with a negative \<open>n\<close> reads to the end of the stream.
\<close>

record reader =
  pending :: bytes
  avail :: "nat list"

definition reader_read :: "int \<Rightarrow> reader \<Rightarrow> bytes \<times> reader" where
  "reader_read n r =
     (let m = int (length (pending r));
          k = (if n < 0 then m
               else min m (case avail r of [] \<Rightarrow> n | a # _ \<Rightarrow> min n (max 1 (int a))))
      in (take (nat k) (pending r),
          r\<lparr>pending := drop (nat k) (pending r), avail := tl (avail r)\<rparr>))"

text \<open>
  \<open>readline()\<close>: the bytes up to and including the first \<open>\n\<close>; if the stream ends before
  a \<open>\n\<close>, whatever is left (the empty string at end of stream). When the first \<open>\n\<close> lies
  beyond the reader's limit (\<open>2 ** 16\<close>, the default the program uses), or there is none
  among more than that many bytes, \<open>readline()\<close> removes what it has buffered and raises
  \<open>ValueError\<close>: the buffer then holds more bytes than the limit and at most the line with
  its \<open>\n\<close>, and the head of \<open>avail\<close> tells how many.
\<close>

definition stream_limit :: int where
  "stream_limit = 65536"

definition reader_readline :: "reader \<Rightarrow> (error + bytes) \<times> reader" where
  "reader_readline r =
     (let buf = pending r; isep = length (takeWhile (\<lambda>c. c \<noteq> LF) buf) in
      if int isep > stream_limit then
        (let top = (if isep < length buf then int isep + 1 else int (length buf));
             k = (case avail r of
                    [] \<Rightarrow> top
                  | a # _ \<Rightarrow> min top (max (stream_limit + 1) (int a)))
         in (Inl LimitOverrun, r\<lparr>pending := drop (nat k) buf, avail := tl (avail r)\<rparr>))
      else if isep < length buf then
        (Inr (take (isep + 1) buf), r\<lparr>pending := drop (isep + 1) buf\<rparr>)
      else (Inr buf, r\<lparr>pending := []\<rparr>))"

text \<open>
  The two connections of a session: \<open>Proxy\<close> is the client side (\<open>proxy_reader\<close>,
  \<open>proxy_writer\<close>), \<open>Server\<close> the upstream side (\<open>server_reader\<close>, \<open>server_writer\<close>).
  What the session does to its writers, its sleeps (in milliseconds) and its calls of
  \<open>asyncio.open_connection(host, port)\<close> are recorded in order in \<open>trace\<close>.
\<close>

datatype stream_ref = Proxy | Server

datatype event =
    Write stream_ref bytes
  | Drain stream_ref
  | Close stream_ref
  | Sleep nat
  | Connect "string option" "int option"

text \<open>
  What a session can see and change: its two readers, the trace, the module-level dict
  \<open>host_abs_url\<close> (keys \<open>"host:port"\<close>, kept as an association list with at most one entry
  per key) and the position in the sequence of random draws.
\<close>

record world =
  proxy_reader :: reader
  server_reader :: reader
  trace :: "event list"
  host_abs_url :: "(string \<times> bool) list"
  rnd_next :: nat

definition dict_get :: "(string \<times> bool) list \<Rightarrow> string \<Rightarrow> bool option" where
  "dict_get d k = map_of d k"

definition dict_set :: "string \<Rightarrow> bool \<Rightarrow> (string \<times> bool) list \<Rightarrow> (string \<times> bool) list" where
  "dict_set k v d = (k, v) # filter (\<lambda>p. fst p \<noteq> k) d"

fun get_reader :: "stream_ref \<Rightarrow> world \<Rightarrow> reader" where
  "get_reader Proxy w = proxy_reader w"
| "get_reader Server w = server_reader w"

fun put_reader :: "stream_ref \<Rightarrow> reader \<Rightarrow> world \<Rightarrow> world" where
  "put_reader Proxy r w = w\<lparr>proxy_reader := r\<rparr>"
| "put_reader Server r w = w\<lparr>server_reader := r\<rparr>"

definition emit :: "event \<Rightarrow> world \<Rightarrow> world" where
  "emit e w = w\<lparr>trace := trace w @ [e]\<rparr>"

text \<open>\<open>writer.write(b)\<close> where \<open>writer\<close> may be \<open>None\<close>.\<close>

definition writer_write :: "stream_ref option \<Rightarrow> bytes \<Rightarrow> world \<Rightarrow> error + world" where
  "writer_write wr b w =
     (case wr of None \<Rightarrow> Inl AttributeError | Some s \<Rightarrow> Inr (emit (Write s b) w))"

text \<open>The bytes written to one writer, in order.\<close>

fun written :: "stream_ref \<Rightarrow> event list \<Rightarrow> bytes" where
  "written s [] = []"
| "written s (Write t b # es) = (if s = t then b @ written s es else written s es)"
| "written s (_ # es) = written s es"

section \<open>Randomness\<close>

text \<open>
  The module \<open>random\<close> is modelled by an infinite sequence of raw draws \<open>rnd\<close> and the index
  of the next draw. \<open>random.randrange(n)\<close> raises \<open>ValueError\<close> for \<open>n \<le> 0\<close> and otherwise
  returns a value in \<open>[0, n)\<close>.
\<close>

definition randrange :: "int \<Rightarrow> nat \<Rightarrow> error + nat" where
  "randrange n r = (if n \<le> 0 then Inl ValueError else Inr (r mod nat n))"

section \<open>\<open>random_split\<close>\<close>

text \<open>
  \<^verbatim>\<open>
  def random_split(s, step):
      while s:
          rr = random.randrange(step-1)+1
          cur, s = s[:rr], s[rr:]
          yield cur
  \<close>
  The result is the list of yielded slices, in yield order; the \<open>k\<close>-th iteration uses
  draw \<open>i + k\<close>.
\<close>

function random_split :: "bytes \<Rightarrow> int \<Rightarrow> (nat \<Rightarrow> nat) \<Rightarrow> nat \<Rightarrow> error + bytes list" where
  "random_split s step rnd i =
     (if s = [] then Inr []
      else case randrange (step - 1) (rnd i) of
             Inl e \<Rightarrow> Inl e
           | Inr r \<Rightarrow>
               (case random_split (drop (r + 1) s) step rnd (Suc i) of
                  Inl e \<Rightarrow> Inl e
                | Inr ys \<Rightarrow> Inr (take (r + 1) s # ys)))"
  by pat_completeness auto
termination
  by (relation "measure (\<lambda>(s, step, rnd, i). length s)") auto

declare random_split.simps [simp del]

section \<open>\<open>HttpStream\<close>\<close>

text \<open>
  The parser object. \<open>reader\<close> and \<open>writer\<close> refer to streams of the session; the other
  fields are as \<open>__init__\<close> sets them.
\<close>

record http_stream =
  reader :: stream_ref
  writer :: "stream_ref option"
  field_done :: bool
  body_len :: int
  chunked :: bool
  chunk_len :: "int option"
  body_done :: bool

definition HttpStream :: "stream_ref \<Rightarrow> stream_ref option \<Rightarrow> http_stream" where
  "HttpStream rd wr =
     \<lparr>reader = rd, writer = wr, field_done = False, body_len = 0, chunked = False,
      chunk_len = None, body_done = False\<rparr>"

text \<open>
  \<^verbatim>\<open>
  async def nextline(self):
      line = await self.reader.readline()
      if not line:
          raise EOFError
      return line
  \<close>
\<close>

definition nextline :: "http_stream \<Rightarrow> world \<Rightarrow> (error + bytes) \<times> world" where
  "nextline h w =
     (case reader_readline (get_reader (reader h) w) of
        (Inl e, r') \<Rightarrow> (Inl e, put_reader (reader h) r' w)
      | (Inr line, r') \<Rightarrow>
          (if line = [] then (Inl EOFError, put_reader (reader h) r' w)
           else (Inr line, put_reader (reader h) r' w)))"

text \<open>
  Every parsing method starts in the same way:
  \<^verbatim>\<open>
  line = await self.nextline()
  if tunnel:
      self.writer.write(line)
  \<close>
  (\<open>self.writer\<close> may be \<open>None\<close>, then the call raises \<open>AttributeError\<close>), and goes on
  with the line alone; \<open>nextline_tee\<close> is that start, and for each method a function of
  the line is the rest.
\<close>

definition tee :: "bool \<Rightarrow> http_stream \<Rightarrow> bytes \<Rightarrow> world \<Rightarrow> error + world" where
  "tee tunnel h line w = (if tunnel then writer_write (writer h) line w else Inr w)"

definition nextline_tee :: "bool \<Rightarrow> http_stream \<Rightarrow> world \<Rightarrow> (error + bytes) \<times> world" where
  "nextline_tee tunnel h w =
     (case nextline h w of
        (Inl e, w1) \<Rightarrow> (Inl e, w1)
      | (Inr line, w1) \<Rightarrow>
          (case tee tunnel h line w1 of
             Inl e \<Rightarrow> (Inl e, w1)
           | Inr w2 \<Rightarrow> (Inr line, w2)))"

text \<open>
  \<open>request_line\<close>: \<open>method, url, version = req_line.decode().split(' ')\<close> needs exactly
  three parts; \<open>version = version.rstrip('\r\n')\<close>.
\<close>

definition parse_request_line :: "bytes \<Rightarrow> error + string \<times> string \<times> string" where
  "parse_request_line req_line =
     (case decode req_line of
        Inl e \<Rightarrow> Inl e
      | Inr s \<Rightarrow>
          (case split_all SP s of
             [method, url, version] \<Rightarrow> Inr (method, url, rstrip [CR, LF] version)
           | _ \<Rightarrow> Inl ValueError))"

definition request_line ::
  "bool \<Rightarrow> http_stream \<Rightarrow> world \<Rightarrow> (error + string \<times> string \<times> string) \<times> world" where
  "request_line tunnel h w =
     (case nextline_tee tunnel h w of
        (Inl e, w1) \<Rightarrow> (Inl e, w1)
      | (Inr req_line, w1) \<Rightarrow> (parse_request_line req_line, w1))"

text \<open>
  \<open>status_line\<close>: \<open>version, status, reason = status_line.decode().split(' ', 2)\<close>;
  the result is \<open>version, int(status), reason.rstrip('\r\n')\<close>.
\<close>

definition parse_status_line :: "bytes \<Rightarrow> error + string \<times> int \<times> string" where
  "parse_status_line line =
     (case decode line of
        Inl e \<Rightarrow> Inl e
      | Inr s \<Rightarrow>
          (case split_max SP 2 s of
             [version, status, reason] \<Rightarrow>
               (case int_of_str 10 status of
                  None \<Rightarrow> Inl ValueError
                | Some st \<Rightarrow> Inr (version, st, rstrip [CR, LF] reason))
           | _ \<Rightarrow> Inl ValueError))"

definition status_line ::
  "bool \<Rightarrow> http_stream \<Rightarrow> world \<Rightarrow> (error + string \<times> int \<times> string) \<times> world" where
  "status_line tunnel h w =
     (case nextline_tee tunnel h w of
        (Inl e, w1) \<Rightarrow> (Inl e, w1)
      | (Inr line, w1) \<Rightarrow> (parse_status_line line, w1))"

text \<open>The three kinds of result of \<open>next_header_field\<close>: a \<open>(name, value)\<close> tuple, the
  empty line (as \<open>bytes\<close>), or \<open>None\<close>.\<close>

datatype header_field = Field string string | EmptyLine bytes | FieldNone

text \<open>
  \<^verbatim>\<open>
  if self.field_done:
      return None
  field_line = await self.nextline()
  if tunnel:
      self.writer.write(field_line)
  if field_line == b'\r\n':
      self.field_done = True
      return field_line
  name, value = field_line.decode().split(':', 1)
  name = name.strip(' ')
  value = value.lstrip(' ').rstrip('\r\n')
  name_lower = name.lower()
  if name_lower == 'Content-Length'.lower():
      self.body_len = int(value)
  elif name_lower == 'Transfer-Encoding'.lower():
      codings = list(x.strip(' ') for x in value.split(','))
      if 'chunked' in codings:
          self.chunked = True
  return name, value
  \<close>
  \<open>header_field_of_line\<close> is the part after the tee: the result and the updated parser.
\<close>

definition header_field_of_line ::
  "bytes \<Rightarrow> http_stream \<Rightarrow> error + header_field \<times> http_stream" where
  "header_field_of_line field_line h =
     (if field_line = [CR, LF] then Inr (EmptyLine field_line, h\<lparr>field_done := True\<rparr>)
      else
        case decode field_line of
          Inl e \<Rightarrow> Inl e
        | Inr s \<Rightarrow>
            (case split_max (CHR '':'') 1 s of
               [name0, value0] \<Rightarrow>
                 (let name = strip [SP] name0;
                      value = rstrip [CR, LF] (lstrip [SP] value0);
                      name_lower = lower name
                  in if name_lower = lower ''Content-Length'' then
                       (case int_of_str 10 value of
                          None \<Rightarrow> Inl ValueError
                        | Some n \<Rightarrow> Inr (Field name value, h\<lparr>body_len := n\<rparr>))
                     else if name_lower = lower ''Transfer-Encoding'' then
                       (let codings = map (strip [SP]) (split_all (CHR '','') value)
                        in Inr (Field name value,
                                if ''chunked'' \<in> set codings then h\<lparr>chunked := True\<rparr> else h))
                     else Inr (Field name value, h))
             | _ \<Rightarrow> Inl ValueError))"

definition next_header_field ::
  "bool \<Rightarrow> http_stream \<Rightarrow> world \<Rightarrow> (error + header_field) \<times> http_stream \<times> world" where
  "next_header_field tunnel h w =
     (if field_done h then (Inr FieldNone, h, w)
      else
        case nextline_tee tunnel h w of
          (Inl e, w1) \<Rightarrow> (Inl e, h, w1)
        | (Inr field_line, w1) \<Rightarrow>
            (case header_field_of_line field_line h of
               Inl e \<Rightarrow> (Inl e, h, w1)
             | Inr (field, h1) \<Rightarrow> (Inr field, h1, w1)))"

text \<open>The three kinds of result of \<open>next_chunk_ready\<close>: an \<open>int\<close> (chunk or body length),
  a line (as \<open>bytes\<close>), or \<open>None\<close>.\<close>

datatype chunk_ready = ChunkLen int | ChunkLine bytes | ChunkNone

text \<open>
  \<^verbatim>\<open>
  if self.body_done:
      return None
  if not self.chunked:
      self.body_done = True
      if self.body_len > 0:
          return self.body_len
      else:
          return None
  line = await self.nextline()
  if tunnel:
      self.writer.write(line)
  if self.chunk_len is None:
      chunk_len = int(line.rstrip(b'\r\n'), 16)
      self.chunk_len = chunk_len
      return chunk_len
  if self.chunk_len == 0:
      self.body_done = True
  self.chunk_len = None
  return line
  \<close>
  \<open>chunk_of_line\<close> is the part after the tee.
\<close>

definition chunk_of_line :: "bytes \<Rightarrow> http_stream \<Rightarrow> error + chunk_ready \<times> http_stream" where
  "chunk_of_line line h =
     (case chunk_len h of
        None \<Rightarrow>
          (case py_int 16 (rstrip [CR, LF] line) of
             None \<Rightarrow> Inl ValueError
           | Some n \<Rightarrow> Inr (ChunkLen n, h\<lparr>chunk_len := Some n\<rparr>))
      | Some cl \<Rightarrow>
          Inr (ChunkLine line,
               (if cl = 0 then h\<lparr>body_done := True\<rparr> else h)\<lparr>chunk_len := None\<rparr>))"

definition next_chunk_ready ::
  "bool \<Rightarrow> http_stream \<Rightarrow> world \<Rightarrow> (error + chunk_ready) \<times> http_stream \<times> world" where
  "next_chunk_ready tunnel h w =
     (if body_done h then (Inr ChunkNone, h, w)
      else if \<not> chunked h then
        (if body_len h > 0 then (Inr (ChunkLen (body_len h)), h\<lparr>body_done := True\<rparr>, w)
         else (Inr ChunkNone, h\<lparr>body_done := True\<rparr>, w))
      else
        case nextline_tee tunnel h w of
          (Inl e, w1) \<Rightarrow> (Inl e, h, w1)
        | (Inr line, w1) \<Rightarrow>
            (case chunk_of_line line h of
               Inl e \<Rightarrow> (Inl e, h, w1)
             | Inr (c, h1) \<Rightarrow> (Inr c, h1, w1)))"

text \<open>
  \<^verbatim>\<open>
  async def tunnel_chunk(self):
      if not self.chunked:
          n = self.body_len
      else:
          n = self.chunk_len
      while n > 0:
          rlen = 65536 if n > 65536 else n
          buf = await self.reader.read(rlen)
          n -= len(buf)
          self.writer.write(buf)
          if not buf and n > 0:
              raise EOFError
  \<close>
  \<open>tunnel_chunk_loop\<close> is the \<open>while\<close> loop. With \<open>chunk_len = None\<close> in chunked mode the
  comparison \<open>None > 0\<close> raises \<open>TypeError\<close>.
\<close>

function tunnel_chunk_loop :: "int \<Rightarrow> http_stream \<Rightarrow> world \<Rightarrow> (error + unit) \<times> world" where
  "tunnel_chunk_loop n h w =
     (if n > 0 then
        (case reader_read (if n > 65536 then 65536 else n) (get_reader (reader h) w) of
           (buf, r') \<Rightarrow>
             (case writer_write (writer h) buf (put_reader (reader h) r' w) of
                Inl e \<Rightarrow> (Inl e, put_reader (reader h) r' w)
              | Inr w2 \<Rightarrow>
                  if buf = [] \<and> n - int (length buf) > 0 then (Inl EOFError, w2)
                  else tunnel_chunk_loop (n - int (length buf)) h w2))
      else (Inr (), w))"
  by pat_completeness auto
termination
  by (relation "measure (\<lambda>(n, h, w). nat n)") auto

declare tunnel_chunk_loop.simps [simp del]

definition tunnel_chunk :: "http_stream \<Rightarrow> world \<Rightarrow> (error + unit) \<times> world" where
  "tunnel_chunk h w =
     (if \<not> chunked h then tunnel_chunk_loop (body_len h) h w
      else case chunk_len h of
             None \<Rightarrow> (Inl TypeError, w)
           | Some n \<Rightarrow> tunnel_chunk_loop n h w)"

section \<open>Streams: basic facts\<close>

lemma get_put_reader [simp]: "get_reader s (put_reader s r w) = r"
  by (cases s) simp_all

lemma get_put_reader_other [simp]: "s \<noteq> t \<Longrightarrow> get_reader s (put_reader t r w) = get_reader s w"
  by (cases s; cases t) simp_all

lemma trace_put_reader [simp]: "trace (put_reader s r w) = trace w"
  by (cases s) simp_all

lemma get_reader_emit [simp]: "get_reader s (emit e w) = get_reader s w"
  by (cases s) (simp_all add: emit_def)

lemma trace_emit [simp]: "trace (emit e w) = trace w @ [e]"
  by (simp add: emit_def)

lemma written_append [simp]: "written s (es @ fs) = written s es @ written s fs"
  by (induction s es rule: written.induct) simp_all

lemma written_map_Write [simp]: "written s (map (Write s) bs) = concat bs"
  by (induction bs) simp_all

lemma reader_read_split:
  "reader_read n r = (buf, r') \<Longrightarrow>
     pending r = buf @ pending r' \<and> (0 \<le> n \<longrightarrow> int (length buf) \<le> n)"
  by (auto simp: reader_read_def Let_def min_def split: list.splits if_splits)

lemma reader_read_nonempty:
  "reader_read n r = (buf, r') \<Longrightarrow> 0 < n \<Longrightarrow> pending r \<noteq> [] \<Longrightarrow> buf \<noteq> []"
  by (auto simp: reader_read_def Let_def min_def max_def split: list.splits if_splits)

lemma reader_read_shrinks:
  "(buf, r') = reader_read n r \<Longrightarrow> buf \<noteq> [] \<Longrightarrow> length (pending r') < length (pending r)"
proof -
  assume a: "(buf, r') = reader_read n r" and ne: "buf \<noteq> []"
  from a have "reader_read n r = (buf, r')" by simp
  from reader_read_split [OF this] ne show ?thesis by auto
qed

section \<open>\<open>nextline\<close>\<close>

lemma reader_readline_cases:
  "reader_readline r = (Inr line, r') \<Longrightarrow>
     pending r = line @ pending r' \<and>
     (line \<noteq> [] \<and> last line = LF \<and> LF \<notin> set (butlast line)
      \<or> LF \<notin> set line \<and> pending r' = [])"
proof -
  assume a: "reader_readline r = (Inr line, r')"
  let ?buf = "pending r"
  let ?pre = "takeWhile (\<lambda>c. c \<noteq> LF) ?buf"
  show ?thesis
  proof (cases "length ?pre < length ?buf")
    case True
    then have hd: "?buf ! length ?pre = LF"
      using nth_length_takeWhile [of "\<lambda>c. c \<noteq> LF" ?buf] by simp
    from True have tk: "take (length ?pre + 1) ?buf = ?pre @ [LF]"
      using hd by (simp add: take_Suc_conv_app_nth takeWhile_eq_take [symmetric])
    from a True have l: "line = take (length ?pre + 1) ?buf"
      and r: "pending r' = drop (length ?pre + 1) ?buf"
      by (auto simp: reader_readline_def Let_def split: if_splits)
    have "LF \<notin> set ?pre" using set_takeWhileD by fastforce
    with l r tk show ?thesis by (metis append_take_drop_id butlast_snoc last_snoc snoc_eq_iff_butlast)
  next
    case False
    then have eq: "?pre = ?buf" by (metis length_takeWhile_le le_neq_implies_less takeWhile_eq_take take_all order_refl)
    then have "LF \<notin> set ?buf" by (metis (full_types) set_takeWhileD)
    moreover from a False have "line = ?buf" "pending r' = []"
      by (auto simp: reader_readline_def Let_def split: if_splits)
    ultimately show ?thesis by simp
  qed
qed

lemma reader_readline_Inr_iff:
  "(\<exists>line. fst (reader_readline r) = Inr line)
     \<longleftrightarrow> int (length (takeWhile (\<lambda>c. c \<noteq> LF) (pending r))) \<le> stream_limit"
  by (simp add: reader_readline_def Let_def)

lemma reader_readline_Inl:
  "reader_readline r = (Inl e, r') \<Longrightarrow>
     e = LimitOverrun \<and> stream_limit < int (length (takeWhile (\<lambda>c. c \<noteq> LF) (pending r))) \<and>
     (\<exists>lost. pending r = lost @ pending r')"
proof -
  assume a: "reader_readline r = (Inl e, r')"
  from a have e: "e = LimitOverrun"
    and big: "stream_limit < int (length (takeWhile (\<lambda>c. c \<noteq> LF) (pending r)))"
    by (auto simp: reader_readline_def Let_def split: if_splits)
  from a obtain k where "pending r' = drop k (pending r)"
    by (auto simp: reader_readline_def Let_def split: if_splits)
  then have "pending r = take k (pending r) @ pending r'" by simp
  with e big show ?thesis by blast
qed

lemma reader_readline_empty:
  "reader_readline r = (Inr line, r') \<Longrightarrow> (line = [] \<longleftrightarrow> pending r = [])"
proof -
  assume a: "reader_readline r = (Inr line, r')"
  from reader_readline_cases [OF a] show ?thesis by auto
qed

lemma nextline_put_reader:
  "nextline h w = (res, w1) \<Longrightarrow> \<exists>r. w1 = put_reader (reader h) r w"
  by (auto simp: nextline_def split: prod.splits sum.splits if_splits)

lemma nextline_Inr:
  "nextline h w = (Inr line, w1) \<Longrightarrow>
     line \<noteq> [] \<and> pending (get_reader (reader h) w) = line @ pending (get_reader (reader h) w1) \<and>
     (\<exists>r. w1 = put_reader (reader h) r w)"
proof -
  assume a: "nextline h w = (Inr line, w1)"
  let ?r = "get_reader (reader h) w"
  from a obtain r' where rl: "reader_readline ?r = (Inr line, r')"
    and ne: "line \<noteq> []" and w1: "w1 = put_reader (reader h) r' w"
    by (auto simp: nextline_def split: prod.splits sum.splits if_splits)
  from reader_readline_cases [OF rl] have "pending ?r = line @ pending r'" by simp
  with ne w1 show ?thesis by auto
qed

lemma nextline_Inl:
  "nextline h w = (Inl e, w1) \<Longrightarrow>
     (e = EOFError \<or> e = LimitOverrun) \<and>
     (e \<noteq> LimitOverrun \<longrightarrow>
        pending (get_reader (reader h) w1) = pending (get_reader (reader h) w))"
proof -
  assume a: "nextline h w = (Inl e, w1)"
  let ?r = "get_reader (reader h) w"
  obtain x r' where rl: "reader_readline ?r = (x, r')" by (cases "reader_readline ?r")
  show ?thesis
  proof (cases x)
    case (Inl e')
    with a rl have "e = e'" by (simp add: nextline_def)
    with reader_readline_Inl [of ?r e' r'] rl Inl show ?thesis by simp
  next
    case (Inr line)
    with a rl have e: "line = []" "e = EOFError" and w1: "w1 = put_reader (reader h) r' w"
      by (auto simp: nextline_def split: if_splits)
    from reader_readline_cases [of ?r line r'] rl Inr e have "pending ?r = pending r'" by simp
    with w1 e show ?thesis by simp
  qed
qed

text \<open>What a step leaves alone: everything but the reader it reads and the trace.\<close>

definition same_rest :: "stream_ref \<Rightarrow> world \<Rightarrow> world \<Rightarrow> bool" where
  "same_rest r w w' \<longleftrightarrow>
     (\<forall>s. s \<noteq> r \<longrightarrow> get_reader s w' = get_reader s w) \<and>
     host_abs_url w' = host_abs_url w \<and> rnd_next w' = rnd_next w"

lemma same_rest_refl [simp]: "same_rest r w w"
  by (simp add: same_rest_def)

lemma same_rest_trans: "same_rest r w w1 \<Longrightarrow> same_rest r w1 w2 \<Longrightarrow> same_rest r w w2"
  by (simp add: same_rest_def)

lemma host_abs_url_put_reader [simp]: "host_abs_url (put_reader s r w) = host_abs_url w"
  by (cases s) simp_all

lemma host_abs_url_emit [simp]: "host_abs_url (emit e w) = host_abs_url w"
  by (simp add: emit_def)

lemma rnd_next_put_reader [simp]: "rnd_next (put_reader s r w) = rnd_next w"
  by (cases s) simp_all

lemma rnd_next_emit [simp]: "rnd_next (emit e w) = rnd_next w"
  by (simp add: emit_def)

lemma same_rest_put_reader [simp]: "same_rest r w (put_reader r x w)"
  by (simp add: same_rest_def)

lemma same_rest_emit [simp]: "same_rest r w (emit e w)"
  by (simp add: same_rest_def)

text \<open>
  \<open>relayed r s w w'\<close>: from \<open>w\<close> to \<open>w'\<close> the only events are writes to \<open>s\<close>, and the bytes
  written are exactly the bytes consumed from reader \<open>r\<close>.
\<close>

definition relayed :: "stream_ref \<Rightarrow> stream_ref \<Rightarrow> world \<Rightarrow> world \<Rightarrow> bool" where
  "relayed r s w w' \<longleftrightarrow>
     (\<exists>bs. trace w' = trace w @ map (Write s) bs \<and>
           pending (get_reader r w) = concat bs @ pending (get_reader r w')) \<and>
     same_rest r w w'"

lemma relayed_refl [simp]: "relayed r s w w"
  by (auto simp: relayed_def intro: exI [of _ "[]"])

lemma relayed_trans:
  assumes "relayed r s w w1" and "relayed r s w1 w2"
  shows "relayed r s w w2"
proof -
  from assms(1) obtain bs where
    1: "trace w1 = trace w @ map (Write s) bs"
       "pending (get_reader r w) = concat bs @ pending (get_reader r w1)"
    and s1: "same_rest r w w1"
    by (auto simp: relayed_def)
  from assms(2) obtain cs where
    2: "trace w2 = trace w1 @ map (Write s) cs"
       "pending (get_reader r w1) = concat cs @ pending (get_reader r w2)"
    and s2: "same_rest r w1 w2"
    by (auto simp: relayed_def)
  from 1 2 have "trace w2 = trace w @ map (Write s) (bs @ cs)"
    "pending (get_reader r w) = concat (bs @ cs) @ pending (get_reader r w2)" by simp_all
  with same_rest_trans [OF s1 s2] show ?thesis unfolding relayed_def by blast
qed

lemma relayed_length:
  "relayed r s w w' \<Longrightarrow> length (pending (get_reader r w')) \<le> length (pending (get_reader r w))"
  by (auto simp: relayed_def)

lemma relayed_written:
  "relayed r s w w' \<Longrightarrow>
     \<exists>es. trace w' = trace w @ es \<and> pending (get_reader r w) = written s es @ pending (get_reader r w')"
  by (auto simp: relayed_def)

lemma nextline_tee_relayed:
  assumes "writer h = Some s" and "nextline_tee True h w = (res, w')"
    and "res \<noteq> Inl LimitOverrun"
  shows "relayed (reader h) s w w'"
proof (cases "nextline h w")
  case (Pair r w1)
  from nextline_put_reader [OF Pair] have t: "trace w1 = trace w"
    and sr: "same_rest (reader h) w w1" by auto
  show ?thesis
  proof (cases r)
    case (Inl e)
    with Pair assms(2) have w': "w' = w1" and res: "res = Inl e" by (simp_all add: nextline_tee_def)
    from nextline_Inl [of h w e w1] Pair Inl res assms(3)
    have p: "pending (get_reader (reader h) w1) = pending (get_reader (reader h) w)" by auto
    from p t have "trace w1 = trace w @ map (Write s) [] \<and>
      pending (get_reader (reader h) w) = concat [] @ pending (get_reader (reader h) w1)" by simp
    with sr w' show ?thesis unfolding relayed_def by blast
  next
    case (Inr line)
    with Pair assms have w': "w' = emit (Write s line) w1"
      by (simp add: nextline_tee_def tee_def writer_write_def)
    from nextline_Inr [of h w line w1] Pair Inr
    have p: "pending (get_reader (reader h) w) = line @ pending (get_reader (reader h) w1)" by auto
    from p t w' have "trace w' = trace w @ map (Write s) [line] \<and>
      pending (get_reader (reader h) w) = concat [line] @ pending (get_reader (reader h) w')" by simp
    moreover from sr w' have "same_rest (reader h) w w'" by (simp add: same_rest_def)
    ultimately show ?thesis unfolding relayed_def by blast
  qed
qed

lemma nextline_tee_progress:
  "nextline_tee t h w = (Inr line, w') \<Longrightarrow>
     length (pending (get_reader (reader h) w')) < length (pending (get_reader (reader h) w))"
proof -
  assume a: "nextline_tee t h w = (Inr line, w')"
  then obtain w1 where n: "nextline h w = (Inr line, w1)"
    and t: "tee t h line w1 = Inr w'"
    by (auto simp: nextline_tee_def split: prod.splits sum.splits)
  from t have "get_reader (reader h) w' = get_reader (reader h) w1"
    by (auto simp: tee_def writer_write_def split: if_splits option.splits)
  with nextline_Inr [OF n] show ?thesis by simp
qed

lemma tunnel_chunk_loop_length:
  "tunnel_chunk_loop n h w = (res, w') \<Longrightarrow>
     length (pending (get_reader (reader h) w')) \<le> length (pending (get_reader (reader h) w))"
proof (induction n h w arbitrary: res w' rule: tunnel_chunk_loop.induct)
  case (1 n h w)
  show ?case
  proof (cases "n > 0")
    case False
    with "1.prems" show ?thesis by (simp add: tunnel_chunk_loop.simps)
  next
    case True
    let ?k = "if n > 65536 then 65536 else n"
    let ?r = "get_reader (reader h) w"
    obtain buf r' where rd: "reader_read ?k ?r = (buf, r')" by (cases "reader_read ?k ?r")
    let ?w1 = "put_reader (reader h) r' w"
    from reader_read_split [OF rd] have sp: "pending ?r = buf @ pending r'" by simp
    show ?thesis
    proof (cases "writer_write (writer h) buf ?w1")
      case (Inl e)
      with "1.prems" True rd have "w' = ?w1" by (simp add: tunnel_chunk_loop.simps)
      with sp show ?thesis by simp
    next
      case (Inr w2)
      then have g: "get_reader (reader h) w2 = r'"
        by (auto simp: writer_write_def split: option.splits)
      show ?thesis
      proof (cases "buf = [] \<and> n - int (length buf) > 0")
        case stop: True
        with "1.prems" True rd Inr have "w' = w2" by (simp add: tunnel_chunk_loop.simps)
        with g sp show ?thesis by simp
      next
        case go: False
        with "1.prems" True rd Inr
        have rec: "tunnel_chunk_loop (n - int (length buf)) h w2 = (res, w')"
          by (simp add: tunnel_chunk_loop.simps)
        from "1.IH" [OF True rd [symmetric] Inr go rec] g sp show ?thesis by simp
      qed
    qed
  qed
qed

lemma tunnel_chunk_length:
  "tunnel_chunk h w = (res, w') \<Longrightarrow>
     length (pending (get_reader (reader h) w')) \<le> length (pending (get_reader (reader h) w))"
  by (auto simp: tunnel_chunk_def split: if_splits option.splits dest: tunnel_chunk_loop_length)

lemma header_field_of_line_streams:
  "header_field_of_line line h = Inr (f, h1) \<Longrightarrow> reader h1 = reader h \<and> writer h1 = writer h"
  by (auto simp: header_field_of_line_def Let_def
      split: if_splits sum.splits list.splits option.splits)

lemma chunk_of_line_streams:
  "chunk_of_line line h = Inr (c, h1) \<Longrightarrow> reader h1 = reader h \<and> writer h1 = writer h"
  by (auto simp: chunk_of_line_def split: if_splits option.splits)


lemma next_header_field_progress:
  assumes "next_header_field t h w = (Inr field, h1, w1)" and "field \<noteq> FieldNone"
  shows "reader h1 = reader h \<and> writer h1 = writer h \<and>
         length (pending (get_reader (reader h) w1)) < length (pending (get_reader (reader h) w))"
proof -
  from assms obtain line where nt: "nextline_tee t h w = (Inr line, w1)"
    and hf: "header_field_of_line line h = Inr (field, h1)"
    by (auto simp: next_header_field_def split: if_splits prod.splits sum.splits)
  from header_field_of_line_streams [OF hf] nextline_tee_progress [OF nt]
  show ?thesis by simp
qed

text \<open>The measure of the body loop: twice the bytes pending, plus one while the body is
  not done.\<close>

definition body_measure :: "http_stream \<Rightarrow> world \<Rightarrow> nat" where
  "body_measure h w =
     2 * length (pending (get_reader (reader h) w)) + (if body_done h then 0 else 1)"

lemma next_chunk_ready_progress:
  assumes nc: "next_chunk_ready t h w = (Inr c, h1, w1)" and ne: "c \<noteq> ChunkNone"
  shows "reader h1 = reader h \<and> writer h1 = writer h \<and> body_measure h1 w1 < body_measure h w \<and>
         (body_done h1 \<and> \<not> body_done h \<and> w1 = w
          \<or> length (pending (get_reader (reader h) w1)) < length (pending (get_reader (reader h) w)))"
proof (cases "chunked h")
  case False
  with nc ne have "h1 = h\<lparr>body_done := True\<rparr>" "w1 = w" "\<not> body_done h"
    by (auto simp: next_chunk_ready_def split: if_splits)
  then show ?thesis by (simp add: body_measure_def)
next
  case True
  with nc ne obtain line where nt: "nextline_tee t h w = (Inr line, w1)"
    and cl: "chunk_of_line line h = Inr (c, h1)"
    by (auto simp: next_chunk_ready_def split: if_splits prod.splits sum.splits)
  from chunk_of_line_streams [OF cl] have r: "reader h1 = reader h" "writer h1 = writer h" by simp_all
  from nextline_tee_progress [OF nt]
  have l: "length (pending (get_reader (reader h) w1)) < length (pending (get_reader (reader h) w))" .
  from l r have "body_measure h1 w1 < body_measure h w" by (simp add: body_measure_def)
  with r l show ?thesis by simp
qed

lemma tunnel_body_measure_chunk:
  assumes nc: "next_chunk_ready t h w = (Inr (ChunkLen n), h1, w1)"
    and tc: "tunnel_chunk h1 w1 = (r, w2)"
  shows "body_measure h1 w2 < body_measure h w"
proof -
  from next_chunk_ready_progress [OF nc] have rd: "reader h1 = reader h"
    and m: "body_measure h1 w1 < body_measure h w" by simp_all
  from tunnel_chunk_length [OF tc] have "body_measure h1 w2 \<le> body_measure h1 w1"
    by (simp add: body_measure_def)
  with m show ?thesis by simp
qed

section \<open>URLs\<close>

text \<open>
  A \<open>urllib.parse.ParseResult\<close>: the six components. \<open>urlparse\<close> itself is library code
  and is a parameter of the functions that call it; what the program does with a parsed
  URL (\<open>_replace\<close>, \<open>geturl()\<close>, \<open>hostname\<close>, \<open>port\<close>) is written out here as in CPython 3.11.
\<close>

record parse_result =
  scheme :: string
  netloc :: string
  path :: string
  params :: string
  query :: string
  fragment :: string

definition uses_netloc :: "string list" where
  "uses_netloc =
     ['''', ''ftp'', ''http'', ''gopher'', ''nntp'', ''telnet'', ''imap'', ''wais'', ''file'',
      ''mms'', ''https'', ''shttp'', ''snews'', ''prospero'', ''rtsp'', ''rtsps'', ''rtspu'',
      ''rsync'', ''svn'', ''svn+ssh'', ''sftp'', ''nfs'', ''git'', ''git+ssh'', ''ws'', ''wss'']"

text \<open>
  \<open>geturl()\<close> is \<open>urlunparse(self)\<close>:
  \<^verbatim>\<open>
  if params:
      url = "%s;%s" % (url, params)
  if netloc or (scheme and scheme in uses_netloc) or url[:2] == '//':
      if url and url[:1] != '/': url = '/' + url
      url = '//' + (netloc or '') + url
  if scheme:
      url = scheme + ':' + url
  if query:
      url = url + '?' + query
  if fragment:
      url = url + '#' + fragment
  \<close>
\<close>

definition geturl :: "parse_result \<Rightarrow> string" where
  "geturl u =
     (let url1 = (if params u \<noteq> [] then path u @ '';'' @ params u else path u);
          url2 = (if netloc u \<noteq> [] \<or> (scheme u \<noteq> [] \<and> scheme u \<in> set uses_netloc)
                     \<or> take 2 url1 = ''//''
                  then ''//'' @ netloc u
                         @ (if url1 \<noteq> [] \<and> take 1 url1 \<noteq> ''/'' then ''/'' @ url1 else url1)
                  else url1);
          url3 = (if scheme u \<noteq> [] then scheme u @ '':'' @ url2 else url2);
          url4 = (if query u \<noteq> [] then url3 @ ''?'' @ query u else url3)
      in if fragment u \<noteq> [] then url4 @ ''#'' @ fragment u else url4)"

text \<open>\<open>s.partition(c)\<close> and \<open>s.rpartition(c)\<close>: head, whether the separator was found, tail.\<close>

definition partition_at :: "char \<Rightarrow> string \<Rightarrow> string \<times> bool \<times> string" where
  "partition_at c s =
     (let pre = takeWhile (\<lambda>x. x \<noteq> c) s in
      if length pre = length s then (s, False, []) else (pre, True, drop (length pre + 1) s))"

definition rpartition_at :: "char \<Rightarrow> string \<Rightarrow> string \<times> bool \<times> string" where
  "rpartition_at c s =
     (let post = rev (takeWhile (\<lambda>x. x \<noteq> c) (rev s)) in
      if length post = length s then ([], False, s)
      else (take (length s - length post - 1) s, True, post))"

text \<open>
  \<^verbatim>\<open>
  _, _, hostinfo = netloc.rpartition('@')
  _, have_open_br, bracketed = hostinfo.partition('[')
  if have_open_br:
      hostname, _, port = bracketed.partition(']')
      _, _, port = port.partition(':')
  else:
      hostname, _, port = hostinfo.partition(':')
  if not port:
      port = None
  return hostname, port
  \<close>
\<close>

definition hostinfo :: "parse_result \<Rightarrow> string \<times> string option" where
  "hostinfo u =
     (let hi = snd (snd (rpartition_at (CHR ''@'') (netloc u)));
          (x, have_open_br, bracketed) = partition_at (CHR ''['') hi;
          (hostname, port) =
            (if have_open_br then
               (let (hn, y, p) = partition_at (CHR '']'') bracketed
                in (hn, snd (snd (partition_at (CHR '':'') p))))
             else (let (hn, y, p) = partition_at (CHR '':'') hi in (hn, p)))
      in (hostname, if port = [] then None else Some port))"

text \<open>The property \<open>hostname\<close>: \<open>None\<close> for an empty host; the part before a \<open>%\<close> is
  lowered.\<close>

definition hostname :: "parse_result \<Rightarrow> string option" where
  "hostname u =
     (let hn = fst (hostinfo u) in
      if hn = [] then None
      else (let (h, percent, zone) = partition_at (CHR ''%'') hn
            in Some (lower h @ (if percent then ''%'' else []) @ zone)))"

text \<open>
  The property \<open>port\<close>:
  \<^verbatim>\<open>
  port = self._hostinfo[1]
  if port is not None:
      if port.isdigit() and port.isascii():
          port = int(port)
      else:
          raise ValueError(...)
      if not (0 <= port <= 65535):
          raise ValueError("Port out of range 0-65535")
  return port
  \<close>
\<close>

definition url_port :: "parse_result \<Rightarrow> error + int option" where
  "url_port u =
     (case snd (hostinfo u) of
        None \<Rightarrow> Inr None
      | Some p \<Rightarrow>
          (if \<forall>c \<in> set p. c \<in> set ''0123456789'' then
             (case py_int 10 p of
                None \<Rightarrow> Inl ValueError
              | Some n \<Rightarrow> (if 0 \<le> n \<and> n \<le> 65535 then Inr (Some n) else Inl ValueError))
           else Inl ValueError))"

section \<open>Formatting\<close>

text \<open>\<open>str(n)\<close> for an \<open>int\<close>.\<close>

function str_int :: "int \<Rightarrow> string" where
  "str_int n =
     (if n < 0 then CHR ''-'' # str_int (- n)
      else if n < 10 then [''0123456789'' ! nat n]
      else str_int (n div 10) @ [''0123456789'' ! nat (n mod 10)])"
  by pat_completeness auto
termination
  by (relation "measure (\<lambda>n. if n < 0 then nat (- n) + 1 else nat n)") auto

declare str_int.simps [simp del]

text \<open>\<open>'{}'.format(x)\<close> for an optional string and an optional \<open>int\<close>: \<open>None\<close> prints as
  \<open>None\<close>.\<close>

definition format_str :: "string option \<Rightarrow> string" where
  "format_str x = (case x of None \<Rightarrow> ''None'' | Some s \<Rightarrow> s)"

definition format_int :: "int option \<Rightarrow> string" where
  "format_int x = (case x of None \<Rightarrow> ''None'' | Some n \<Rightarrow> str_int n)"

text \<open>The three canned responses, as functions of the HTTP version; \<open>__version__\<close> is
  \<open>0.6.0\<close>.\<close>

definition PROXY_RESP_504 :: "string \<Rightarrow> bytes" where
  "PROXY_RESP_504 version =
     version @ '' 504 Gateway Timeout'' @ [CR, LF]
     @ ''Proxy-Agent: Nagato/0.6.0'' @ [CR, LF]
     @ ''Connection: close'' @ [CR, LF, CR, LF]"

definition PROXY_RESP_200 :: "string \<Rightarrow> bytes" where
  "PROXY_RESP_200 version =
     version @ '' 200 Connection Established'' @ [CR, LF]
     @ ''Proxy-Agent: Nagato/0.6.0'' @ [CR, LF, CR, LF]"

definition PROXY_RESP_307 :: "string \<Rightarrow> string \<Rightarrow> bytes" where
  "PROXY_RESP_307 version location =
     version @ '' 307 Temporary Redirect'' @ [CR, LF]
     @ ''Location: '' @ location @ [CR, LF]
     @ ''Proxy-Agent: Nagato/0.6.0'' @ [CR, LF]
     @ ''Connection: close'' @ [CR, LF, CR, LF]"

section \<open>\<open>tunnel_stream\<close>\<close>

text \<open>
  \<^verbatim>\<open>
  async def tunnel_stream(reader, writer, closing):
      try:
          while True:
              buf = await reader.read(65536)
              if not buf:
                  break
              writer.write(buf)
      finally:
          writer.close()
          closing()
  \<close>
  \<open>closing\<close> is, at every call, a \<open>close()\<close> of a writer of the session.
\<close>

function tunnel_stream_loop :: "stream_ref \<Rightarrow> stream_ref \<Rightarrow> world \<Rightarrow> world" where
  "tunnel_stream_loop r s w =
     (case reader_read 65536 (get_reader r w) of
        (buf, r') \<Rightarrow>
          if buf = [] then put_reader r r' w
          else tunnel_stream_loop r s (emit (Write s buf) (put_reader r r' w)))"
  by pat_completeness auto
termination
  apply (relation "measure (\<lambda>(r, s, w). length (pending (get_reader r w)))")
   apply simp
  apply (auto dest: reader_read_shrinks)
  done

declare tunnel_stream_loop.simps [simp del]

definition tunnel_stream :: "stream_ref \<Rightarrow> stream_ref \<Rightarrow> stream_ref \<Rightarrow> world \<Rightarrow> world" where
  "tunnel_stream r s closing w = emit (Close closing) (emit (Close s) (tunnel_stream_loop r s w))"

section \<open>\<open>NagatoStream\<close>: the response task\<close>

text \<open>
  The fields of the session object besides its streams. \<open>last_url\<close> holds what
  \<open>handle_request\<close> was given as the URL of the request line: a \<open>ParseResult\<close> from
  \<open>handle_streams\<close>, a \<open>str\<close> from \<open>handle_requests\<close>.
\<close>

datatype url_arg = Parsed parse_result | Raw string

record nagato_stream =
  host :: "string option"
  port :: "int option"
  last_url :: "url_arg option"

text \<open>The key \<open>'{}:{}'.format(self.host, self.port)\<close> of the session in \<open>host_abs_url\<close>.\<close>

definition origin_key :: "nagato_stream \<Rightarrow> string" where
  "origin_key n = format_str (host n) @ '':'' @ format_int (port n)"

text \<open>The loop \<open>while True: field = await http.next_header_field(True); if field is None:
  break\<close> of \<open>handle_response\<close>.\<close>

function tunnel_fields :: "http_stream \<Rightarrow> world \<Rightarrow> (error + unit) \<times> http_stream \<times> world" where
  "tunnel_fields h w =
     (case next_header_field True h w of
        (Inl e, h1, w1) \<Rightarrow> (Inl e, h1, w1)
      | (Inr field, h1, w1) \<Rightarrow>
          (if field = FieldNone then (Inr (), h1, w1) else tunnel_fields h1 w1))"
  by pat_completeness auto
termination
  apply (relation "measure (\<lambda>(h, w). length (pending (get_reader (reader h) w)))")
   apply simp
  apply (auto dest!: next_header_field_progress [OF sym])
  done

declare tunnel_fields.simps [simp del]

text \<open>
  The loop that relays the body, in \<open>handle_request\<close> and in \<open>handle_response\<close>:
  \<^verbatim>\<open>
  while True:
      chunk_line = await http.next_chunk_ready(True)
      if chunk_line is None:
          break
      if isinstance(chunk_line, int):
          await http.tunnel_chunk()
  \<close>
\<close>

function tunnel_body :: "http_stream \<Rightarrow> world \<Rightarrow> (error + unit) \<times> http_stream \<times> world" where
  "tunnel_body h w =
     (case next_chunk_ready True h w of
        (Inl e, h1, w1) \<Rightarrow> (Inl e, h1, w1)
      | (Inr chunk_line, h1, w1) \<Rightarrow>
          (case chunk_line of
             ChunkNone \<Rightarrow> (Inr (), h1, w1)
           | ChunkLen n \<Rightarrow>
               (case tunnel_chunk h1 w1 of
                  (Inl e, w2) \<Rightarrow> (Inl e, h1, w2)
                | (Inr u, w2) \<Rightarrow> tunnel_body h1 w2)
           | ChunkLine l \<Rightarrow> tunnel_body h1 w1))"
  by pat_completeness auto
termination
  apply (relation "measure (\<lambda>(h, w). body_measure h w)")
    apply simp
   apply (auto dest!: tunnel_body_measure_chunk [OF sym sym])[1]
  apply (auto dest!: next_chunk_ready_progress [OF sym])[1]
  done

declare tunnel_body.simps [simp del]

text \<open>
  \<^verbatim>\<open>
  async def handle_response(self):
      http = HttpStream(self.server_reader, self.proxy_writer)
      version, status, reason = await http.status_line()
      if 200 <= status < 300 or status == 304:
          host_abs_url['{}:{}'.format(self.host, self.port)] = True
      elif 400 <= status < 600 and status != 503:
          host_abs_url['{}:{}'.format(self.host, self.port)] = False
          self.proxy_writer.write(PROXY_RESP_307.format(
              version, self.last_url.geturl()).encode())
          self.proxy_writer.close()
          raise EOFError
      self.proxy_writer.write('{} {} {}\r\n'.format(
          version, status, reason).encode())
      [the two loops]
  \<close>
  \<open>forward_response\<close> is the part from the write of the status line on.
  \<open>self.last_url.geturl()\<close> raises \<open>AttributeError\<close> when \<open>last_url\<close> is \<open>None\<close> or a \<open>str\<close>.
\<close>

definition forward_response ::
  "http_stream \<Rightarrow> string \<Rightarrow> int \<Rightarrow> string \<Rightarrow> world \<Rightarrow> (error + unit) \<times> world" where
  "forward_response http version status reason w =
     (let w1 = emit (Write Proxy (version @ '' '' @ str_int status @ '' '' @ reason @ [CR, LF])) w
      in case tunnel_fields http w1 of
           (Inl e, h2, w2) \<Rightarrow> (Inl e, w2)
         | (Inr u, h2, w2) \<Rightarrow>
             (case tunnel_body h2 w2 of
                (Inl e, h3, w3) \<Rightarrow> (Inl e, w3)
              | (Inr u, h3, w3) \<Rightarrow> (Inr (), w3)))"

definition set_policy :: "nagato_stream \<Rightarrow> bool \<Rightarrow> world \<Rightarrow> world" where
  "set_policy n v w = w\<lparr>host_abs_url := dict_set (origin_key n) v (host_abs_url w)\<rparr>"

definition handle_response :: "nagato_stream \<Rightarrow> world \<Rightarrow> (error + unit) \<times> world" where
  "handle_response n w =
     (let http = HttpStream Server (Some Proxy) in
      case status_line False http w of
        (Inl e, w1) \<Rightarrow> (Inl e, w1)
      | (Inr (version, status, reason), w1) \<Rightarrow>
          if (200 \<le> status \<and> status < 300) \<or> status = 304 then
            forward_response http version status reason (set_policy n True w1)
          else if (400 \<le> status \<and> status < 600) \<and> status \<noteq> 503 then
            (case last_url n of
               Some (Parsed u) \<Rightarrow>
                 (Inl EOFError,
                  emit (Close Proxy)
                    (emit (Write Proxy (PROXY_RESP_307 version (geturl u)))
                       (set_policy n False w1)))
             | _ \<Rightarrow> (Inl AttributeError, set_policy n False w1))
          else forward_response http version status reason w1)"

section \<open>Relaying\<close>

lemma next_header_field_streams:
  "next_header_field t h w = (res, h1, w1) \<Longrightarrow> reader h1 = reader h \<and> writer h1 = writer h"
  by (auto simp: next_header_field_def split: if_splits prod.splits sum.splits
      dest: header_field_of_line_streams)

lemma next_chunk_ready_streams:
  "next_chunk_ready t h w = (res, h1, w1) \<Longrightarrow> reader h1 = reader h \<and> writer h1 = writer h"
  by (auto simp: next_chunk_ready_def split: if_splits prod.splits sum.splits
      dest: chunk_of_line_streams)

lemma next_header_field_relayed:
  assumes wr: "writer h = Some s" and nf: "next_header_field True h w = (res, h1, w1)"
    and ok: "res \<noteq> Inl LimitOverrun"
  shows "relayed (reader h) s w w1"
proof (cases "field_done h")
  case True
  with nf show ?thesis by (simp add: next_header_field_def)
next
  case False
  obtain r w2 where nt: "nextline_tee True h w = (r, w2)" by (cases "nextline_tee True h w")
  from nf nt False have w1: "w1 = w2"
    by (auto simp: next_header_field_def split: sum.splits)
  from nf nt False ok have "r \<noteq> Inl LimitOverrun"
    by (auto simp: next_header_field_def split: sum.splits)
  from nextline_tee_relayed [OF wr nt this] w1 show ?thesis by simp
qed

lemma next_chunk_ready_relayed:
  assumes wr: "writer h = Some s" and nc: "next_chunk_ready True h w = (res, h1, w1)"
    and ok: "res \<noteq> Inl LimitOverrun"
  shows "relayed (reader h) s w w1"
proof (cases "body_done h \<or> \<not> chunked h")
  case True
  with nc have "w1 = w" by (auto simp: next_chunk_ready_def split: if_splits)
  then show ?thesis by simp
next
  case False
  obtain r w2 where nt: "nextline_tee True h w = (r, w2)" by (cases "nextline_tee True h w")
  from nc nt False have w1: "w1 = w2"
    by (auto simp: next_chunk_ready_def split: sum.splits)
  from nc nt False ok have "r \<noteq> Inl LimitOverrun"
    by (auto simp: next_chunk_ready_def split: sum.splits)
  from nextline_tee_relayed [OF wr nt this] w1 show ?thesis by simp
qed

lemma relayed_step:
  "relayed r s w (emit (Write s buf) (put_reader r r' w))" if "pending (get_reader r w) = buf @ pending r'"
proof -
  have "trace (emit (Write s buf) (put_reader r r' w)) = trace w @ map (Write s) [buf]" by simp
  moreover from that have "pending (get_reader r w)
      = concat [buf] @ pending (get_reader r (emit (Write s buf) (put_reader r r' w)))" by simp
  moreover have "same_rest r w (emit (Write s buf) (put_reader r r' w))"
    by (simp add: same_rest_def)
  ultimately show ?thesis unfolding relayed_def by blast
qed

lemma tunnel_chunk_loop_relayed:
  "writer h = Some s \<Longrightarrow> tunnel_chunk_loop n h w = (res, w') \<Longrightarrow> relayed (reader h) s w w'"
proof (induction n h w arbitrary: res w' rule: tunnel_chunk_loop.induct)
  case (1 n h w)
  note wr = "1.prems"(1) and run = "1.prems"(2)
  show ?case
  proof (cases "n > 0")
    case False
    with run show ?thesis by (simp add: tunnel_chunk_loop.simps)
  next
    case True
    let ?k = "if n > 65536 then 65536 else n"
    let ?r = "get_reader (reader h) w"
    obtain buf r' where rd: "reader_read ?k ?r = (buf, r')" by (cases "reader_read ?k ?r")
    let ?w1 = "put_reader (reader h) r' w"
    let ?w2 = "emit (Write s buf) ?w1"
    have ww: "writer_write (writer h) buf ?w1 = Inr ?w2" using wr by (simp add: writer_write_def)
    from reader_read_split [OF rd] have sp: "pending ?r = buf @ pending r'" by simp
    note st = relayed_step [OF sp, of s]
    show ?thesis
    proof (cases "buf = [] \<and> n - int (length buf) > 0")
      case stop: True
      with run True rd ww have "w' = ?w2" by (simp add: tunnel_chunk_loop.simps)
      with st show ?thesis by simp
    next
      case go: False
      with run True rd ww
      have rec: "tunnel_chunk_loop (n - int (length buf)) h ?w2 = (res, w')"
        by (simp add: tunnel_chunk_loop.simps)
      from "1.IH" [OF True rd [symmetric] ww go wr rec] have "relayed (reader h) s ?w2 w'" .
      with st show ?thesis by (rule relayed_trans)
    qed
  qed
qed

lemma tunnel_chunk_relayed:
  "writer h = Some s \<Longrightarrow> tunnel_chunk h w = (res, w') \<Longrightarrow> relayed (reader h) s w w'"
  by (auto simp: tunnel_chunk_def split: if_splits option.splits dest: tunnel_chunk_loop_relayed)

lemma tunnel_fields_streams:
  "tunnel_fields h w = (res, h', w') \<Longrightarrow> reader h' = reader h \<and> writer h' = writer h"
proof (induction h w arbitrary: res h' w' rule: tunnel_fields.induct)
  case (1 h w)
  note run = "1.prems"
  obtain r h1 w1 where nf: "next_header_field True h w = (r, h1, w1)"
    by (cases "next_header_field True h w")
  note st = next_header_field_streams [OF nf]
  show ?case
  proof (cases r)
    case (Inl e)
    with run nf have "h' = h1" by (simp add: tunnel_fields.simps)
    with st show ?thesis by simp
  next
    case (Inr f)
    show ?thesis
    proof (cases "f = FieldNone")
      case True
      with run nf Inr have "h' = h1" by (simp add: tunnel_fields.simps)
      with st show ?thesis by simp
    next
      case False
      with run nf Inr have rec: "tunnel_fields h1 w1 = (res, h', w')"
        by (simp add: tunnel_fields.simps)
      from "1.IH" [OF nf [symmetric] Inr refl False rec] st show ?thesis by simp
    qed
  qed
qed

lemma tunnel_fields_relayed:
  "writer h = Some s \<Longrightarrow> tunnel_fields h w = (res, h', w') \<Longrightarrow> res \<noteq> Inl LimitOverrun \<Longrightarrow>
     relayed (reader h) s w w'"
proof (induction h w arbitrary: res h' w' rule: tunnel_fields.induct)
  case (1 h w)
  note wr = "1.prems"(1) and run = "1.prems"(2) and ok = "1.prems"(3)
  obtain r h1 w1 where nf: "next_header_field True h w = (r, h1, w1)"
    by (cases "next_header_field True h w")
  from next_header_field_streams [OF nf]
  have st: "reader h1 = reader h" "writer h1 = writer h" by simp_all
  show ?case
  proof (cases r)
    case (Inl e)
    with run nf have "w' = w1" "res = Inl e" by (simp_all add: tunnel_fields.simps)
    with next_header_field_relayed [OF wr nf] Inl ok show ?thesis by simp
  next
    case (Inr f)
    with next_header_field_relayed [OF wr nf] have rl: "relayed (reader h) s w w1" by simp
    show ?thesis
    proof (cases "f = FieldNone")
      case True
      with run nf Inr have "w' = w1" by (simp add: tunnel_fields.simps)
      with rl show ?thesis by simp
    next
      case False
      with run nf Inr have rec: "tunnel_fields h1 w1 = (res, h', w')"
        by (simp add: tunnel_fields.simps)
      from wr st have wr1: "writer h1 = Some s" by simp
      from "1.IH" [OF nf [symmetric] Inr refl False wr1 rec ok] st
      have "relayed (reader h) s w1 w'" by simp
      with rl show ?thesis by (rule relayed_trans)
    qed
  qed
qed

lemma tunnel_body_streams:
  "tunnel_body h w = (res, h', w') \<Longrightarrow> reader h' = reader h \<and> writer h' = writer h"
proof (induction h w arbitrary: res h' w' rule: tunnel_body.induct)
  case (1 h w)
  note run = "1.prems"
  obtain r h1 w1 where nc: "next_chunk_ready True h w = (r, h1, w1)"
    by (cases "next_chunk_ready True h w")
  note st = next_chunk_ready_streams [OF nc]
  show ?case
  proof (cases r)
    case (Inl e)
    with run nc have "h' = h1" by (simp add: tunnel_body.simps)
    with st show ?thesis by simp
  next
    case (Inr c)
    show ?thesis
    proof (cases c)
      case ChunkNone
      with run nc Inr have "h' = h1" by (simp add: tunnel_body.simps)
      with st show ?thesis by simp
    next
      case (ChunkLine l)
      with run nc Inr have rec: "tunnel_body h1 w1 = (res, h', w')"
        by (simp add: tunnel_body.simps)
      from "1.IH"(2) [OF nc [symmetric] Inr refl ChunkLine rec] st show ?thesis by simp
    next
      case (ChunkLen n)
      obtain z w2 where tc: "tunnel_chunk h1 w1 = (z, w2)" by (cases "tunnel_chunk h1 w1")
      show ?thesis
      proof (cases z)
        case (Inl e)
        with run nc Inr ChunkLen tc have "h' = h1" by (simp add: tunnel_body.simps)
        with st show ?thesis by simp
      next
        case zr: (Inr u)
        with run nc Inr ChunkLen tc have rec: "tunnel_body h1 w2 = (res, h', w')"
          by (simp add: tunnel_body.simps)
        from "1.IH"(1) [OF nc [symmetric] Inr refl ChunkLen tc [symmetric] zr rec] st
        show ?thesis by simp
      qed
    qed
  qed
qed

lemma tunnel_chunk_error:
  "tunnel_chunk_loop n h w = (Inl e, w') \<Longrightarrow> e \<noteq> LimitOverrun"
proof (induction n h w arbitrary: w' rule: tunnel_chunk_loop.induct)
  case (1 n h w)
  note run = "1.prems"
  show ?case
  proof (cases "n > 0")
    case False
    with run show ?thesis by (simp add: tunnel_chunk_loop.simps)
  next
    case True
    let ?k = "if n > 65536 then 65536 else n"
    let ?r = "get_reader (reader h) w"
    obtain buf r' where rd: "reader_read ?k ?r = (buf, r')" by (cases "reader_read ?k ?r")
    let ?w1 = "put_reader (reader h) r' w"
    show ?thesis
    proof (cases "writer_write (writer h) buf ?w1")
      case (Inl e')
      with run True rd have "e = e'" by (simp add: tunnel_chunk_loop.simps)
      with Inl show ?thesis by (auto simp: writer_write_def split: option.splits)
    next
      case (Inr w2)
      show ?thesis
      proof (cases "buf = [] \<and> n - int (length buf) > 0")
        case stop: True
        with run True rd Inr have "e = EOFError" by (simp add: tunnel_chunk_loop.simps)
        then show ?thesis by simp
      next
        case go: False
        with run True rd Inr
        have rec: "tunnel_chunk_loop (n - int (length buf)) h w2 = (Inl e, w')"
          by (simp add: tunnel_chunk_loop.simps)
        from "1.IH" [OF True rd [symmetric] Inr go rec] show ?thesis .
      qed
    qed
  qed
qed

lemma tunnel_body_relayed:
  "writer h = Some s \<Longrightarrow> tunnel_body h w = (res, h', w') \<Longrightarrow> res \<noteq> Inl LimitOverrun \<Longrightarrow>
     relayed (reader h) s w w'"
proof (induction h w arbitrary: res h' w' rule: tunnel_body.induct)
  case (1 h w)
  note wr = "1.prems"(1) and run = "1.prems"(2) and ok = "1.prems"(3)
  obtain r h1 w1 where nc: "next_chunk_ready True h w = (r, h1, w1)"
    by (cases "next_chunk_ready True h w")
  from next_chunk_ready_streams [OF nc]
  have st: "reader h1 = reader h" "writer h1 = writer h" by simp_all
  from wr st have wr1: "writer h1 = Some s" by simp
  show ?case
  proof (cases r)
    case (Inl e)
    with run nc have "w' = w1" "res = Inl e" by (simp_all add: tunnel_body.simps)
    with next_chunk_ready_relayed [OF wr nc] Inl ok show ?thesis by simp
  next
    case (Inr c)
    with next_chunk_ready_relayed [OF wr nc] have rl: "relayed (reader h) s w w1" by simp
    show ?thesis
    proof (cases c)
      case ChunkNone
      with run nc Inr have "w' = w1" by (simp add: tunnel_body.simps)
      with rl show ?thesis by simp
    next
      case (ChunkLine l)
      with run nc Inr have rec: "tunnel_body h1 w1 = (res, h', w')"
        by (simp add: tunnel_body.simps)
      from "1.IH"(2) [OF nc [symmetric] Inr refl ChunkLine wr1 rec ok] st
      have "relayed (reader h) s w1 w'" by simp
      with rl show ?thesis by (rule relayed_trans)
    next
      case (ChunkLen n)
      obtain z w2 where tc: "tunnel_chunk h1 w1 = (z, w2)" by (cases "tunnel_chunk h1 w1")
      from tunnel_chunk_relayed [OF wr1 tc] st have rl2: "relayed (reader h) s w1 w2" by simp
      show ?thesis
      proof (cases z)
        case (Inl e)
        with run nc Inr ChunkLen tc have "w' = w2" by (simp add: tunnel_body.simps)
        with relayed_trans [OF rl rl2] show ?thesis by simp
      next
        case zr: (Inr u)
        with run nc Inr ChunkLen tc have rec: "tunnel_body h1 w2 = (res, h', w')"
          by (simp add: tunnel_body.simps)
        from "1.IH"(1) [OF nc [symmetric] Inr refl ChunkLen tc [symmetric] zr wr1 rec ok] st
        have "relayed (reader h) s w2 w'" by simp
        with relayed_trans [OF rl rl2] show ?thesis by (rule relayed_trans)
      qed
    qed
  qed
qed


section \<open>Progress of the response task\<close>

lemma forward_response_relayed:
  assumes "writer http = Some Proxy" and "reader http = Server"
    and "forward_response http version status reason w = (res, w')"
    and "res \<noteq> Inl LimitOverrun"
  shows "relayed Server Proxy
           (emit (Write Proxy (version @ '' '' @ str_int status @ '' '' @ reason @ [CR, LF])) w) w'"
proof -
  let ?w1 = "emit (Write Proxy (version @ '' '' @ str_int status @ '' '' @ reason @ [CR, LF])) w"
  obtain r2 h2 w2 where tf: "tunnel_fields http ?w1 = (r2, h2, w2)"
    by (cases "tunnel_fields http ?w1")
  from tunnel_fields_streams [OF tf] assms(1,2)
  have h2: "reader h2 = Server" "writer h2 = Some Proxy" by simp_all
  show ?thesis
  proof (cases r2)
    case (Inl e)
    with assms(3) tf have "w' = w2" "res = Inl e" by (simp_all add: forward_response_def Let_def)
    with tunnel_fields_relayed [OF assms(1) tf] Inl assms(2,4) show ?thesis by simp
  next
    case (Inr u)
    with tunnel_fields_relayed [OF assms(1) tf] assms(2)
    have rl: "relayed Server Proxy ?w1 w2" by simp
    obtain r3 h3 w3 where tb: "tunnel_body h2 w2 = (r3, h3, w3)" by (cases "tunnel_body h2 w2")
    from assms(3) tf Inr tb have w': "w' = w3" and r3: "r3 = Inl e \<Longrightarrow> res = Inl e" for e
      by (cases r3; simp add: forward_response_def Let_def)+
    from r3 assms(4) have "r3 \<noteq> Inl LimitOverrun" by auto
    from tunnel_body_relayed [OF h2(2) tb this] h2 have rl2: "relayed Server Proxy w2 w3" by simp
    with relayed_trans [OF rl rl2] w' show ?thesis by simp
  qed
qed

lemma status_line_Inr:
  assumes "status_line False h w = (Inr x, w1)"
  shows "trace w1 = trace w \<and> same_rest (reader h) w w1 \<and>
         length (pending (get_reader (reader h) w1)) < length (pending (get_reader (reader h) w))"
proof -
  from assms obtain line where nt: "nextline_tee False h w = (Inr line, w1)"
    by (auto simp: status_line_def split: prod.splits sum.splits)
  then have nl: "nextline h w = (Inr line, w1)"
    by (auto simp: nextline_tee_def tee_def split: prod.splits sum.splits)
  from nextline_Inr [OF nl] obtain r where "w1 = put_reader (reader h) r w" by blast
  then have "trace w1 = trace w" "same_rest (reader h) w w1" by simp_all
  with nextline_tee_progress [OF nt] show ?thesis by simp
qed

lemma handle_response_progress:
  assumes "handle_response n w = (Inr u, w')"
  shows "length (pending (server_reader w')) < length (pending (server_reader w))"
proof -
  let ?http = "HttpStream Server (Some Proxy)"
  have hs: "writer ?http = Some Proxy" "reader ?http = Server" by (simp_all add: HttpStream_def)
  obtain r w1 where sl: "status_line False ?http w = (r, w1)"
    by (cases "status_line False ?http w")
  with assms obtain version status reason where r: "r = Inr (version, status, reason)"
    by (cases r) (auto simp: handle_response_def)
  from status_line_Inr [of ?http w "(version, status, reason)" w1] sl r hs
  have l1: "length (pending (server_reader w1)) < length (pending (server_reader w))" by simp
  from assms sl r obtain wx where fr: "forward_response ?http version status reason wx = (Inr u, w')"
    and wx: "wx = set_policy n True w1 \<or> wx = w1"
    by (auto simp: handle_response_def Let_def split: if_splits option.splits url_arg.splits)
  have "Inr u \<noteq> (Inl LimitOverrun :: error + unit)" by simp
  from relayed_length [OF forward_response_relayed [OF hs fr this]]
  have "length (pending (server_reader w')) \<le> length (pending (server_reader wx))"
    by (simp add: emit_def)
  moreover from wx have "server_reader wx = server_reader w1" by (auto simp: set_policy_def)
  ultimately show ?thesis using l1 by simp
qed

section \<open>\<open>NagatoStream\<close>: the response task, continued\<close>

text \<open>
  \<^verbatim>\<open>
  async def handle_responses(self):
      host = '{}:{}'.format(self.host, self.port)
      try:
          while host_abs_url.get(host) is None:
              await self.handle_response()
      except EOFError:
          self.proxy_writer.close()
          self.server_writer.close()
          return
      await tunnel_stream(self.server_reader, self.proxy_writer,
                          lambda: self.server_writer.close())
  \<close>
  \<open>handle_responses_loop\<close> is the \<open>while\<close> loop.
\<close>

function handle_responses_loop :: "nagato_stream \<Rightarrow> world \<Rightarrow> (error + unit) \<times> world" where
  "handle_responses_loop n w =
     (if dict_get (host_abs_url w) (origin_key n) = None then
        (case handle_response n w of
           (Inl e, w1) \<Rightarrow> (Inl e, w1)
         | (Inr u, w1) \<Rightarrow> handle_responses_loop n w1)
      else (Inr (), w))"
  by pat_completeness auto
termination
  apply (relation "measure (\<lambda>(n, w). length (pending (server_reader w)))")
   apply simp
  apply (auto dest!: handle_response_progress [OF sym])
  done

declare handle_responses_loop.simps [simp del]

definition handle_responses :: "nagato_stream \<Rightarrow> world \<Rightarrow> (error + unit) \<times> world" where
  "handle_responses n w =
     (case handle_responses_loop n w of
        (Inl e, w1) \<Rightarrow>
          (if e = EOFError then (Inr (), emit (Close Server) (emit (Close Proxy) w1))
           else (Inl e, w1))
      | (Inr u, w1) \<Rightarrow> (Inr (), tunnel_stream Server Proxy Server w1))"

section \<open>\<open>NagatoStream\<close>: the request task\<close>

text \<open>
  \<open>random_str(size)\<close>: \<open>size\<close> letters, each a \<open>random.choice\<close> among the 52, which takes
  one draw.
\<close>

definition letters :: string where
  "letters = ''abcdefghijklmnopqrstuvwxyzABCDEFGHIJKLMNOPQRSTUVWXYZ''"

definition random_str :: "(nat \<Rightarrow> nat) \<Rightarrow> nat \<Rightarrow> nat \<Rightarrow> string" where
  "random_str rnd i sz = map (\<lambda>k. letters ! (rnd (i + k) mod 52)) [0 ..< sz]"

text \<open>
  The dummy fields of a request in passthrough mode:
  \<^verbatim>\<open>
  for _ in range(8):
      self.server_writer.write('X-{}: {}\r\n'.format(
          random_str(16), random_str(128)).encode())
  \<close>
\<close>

fun dummy_fields :: "(nat \<Rightarrow> nat) \<Rightarrow> nat \<Rightarrow> world \<Rightarrow> world" where
  "dummy_fields rnd 0 w = w"
| "dummy_fields rnd (Suc k) w =
     dummy_fields rnd k
       ((emit (Write Server (''X-'' @ random_str rnd (rnd_next w) 16 @ '': ''
                              @ random_str rnd (rnd_next w + 16) 128 @ [CR, LF])) w)
        \<lparr>rnd_next := rnd_next w + 144\<rparr>)"

text \<open>
  The loop over the header fields of the request:
  \<^verbatim>\<open>
  while True:
      field = await http.next_header_field()
      if field == b'\r\n' or field is None:
          break
      name, value = field
      name_lower = name.lower()
      if name_lower == 'Host'.lower():
          host = value
          continue
      elif name_lower == 'Proxy-Connection'.lower():
          field_lines.append('Connection: {}\r\n'.format(value).encode())
          continue
      field_lines.append('{}: {}\r\n'.format(name, value).encode())
  \<close>
\<close>

function request_fields ::
  "http_stream \<Rightarrow> bytes list \<Rightarrow> string option \<Rightarrow> world
     \<Rightarrow> (error + bytes list \<times> string option) \<times> http_stream \<times> world" where
  "request_fields http field_lines host_field w =
     (case next_header_field False http w of
        (Inl e, h1, w1) \<Rightarrow> (Inl e, h1, w1)
      | (Inr field, h1, w1) \<Rightarrow>
          (case field of
             FieldNone \<Rightarrow> (Inr (field_lines, host_field), h1, w1)
           | EmptyLine l \<Rightarrow> (Inr (field_lines, host_field), h1, w1)
           | Field name value \<Rightarrow>
               (if lower name = lower ''Host'' then
                  request_fields h1 field_lines (Some value) w1
                else if lower name = lower ''Proxy-Connection'' then
                  request_fields h1 (field_lines @ [''Connection: '' @ value @ [CR, LF]])
                    host_field w1
                else
                  request_fields h1 (field_lines @ [name @ '': '' @ value @ [CR, LF]])
                    host_field w1)))"
  by pat_completeness auto
termination
  apply (relation "measure (\<lambda>(h, fl, hf, w). length (pending (get_reader (reader h) w)))")
     apply simp
    apply (auto dest!: next_header_field_progress [OF sym])
  done

declare request_fields.simps [simp del]

text \<open>
  The host line:
  \<^verbatim>\<open>
  host_line = 'hoSt:' + (host or self.host) + '\r\n'
  host_line = host_line.encode()
  for p in [host_line[:2], *random_split(host_line[2:], 6)]:
      self.server_writer.write(p)
      await self.server_writer.drain()
      await asyncio.sleep(random.randrange(10) / 1000.0)
  \<close>
  The list is built first, so \<open>random_split\<close> takes its draws before the first sleep.
  \<open>host or self.host\<close> is \<open>self.host\<close> when \<open>host\<close> is \<open>None\<close> or empty, and the concatenation
  raises \<open>TypeError\<close> when that is \<open>None\<close>.
\<close>

fun write_segments :: "(nat \<Rightarrow> nat) \<Rightarrow> bytes list \<Rightarrow> world \<Rightarrow> world" where
  "write_segments rnd [] w = w"
| "write_segments rnd (p # ps) w =
     write_segments rnd ps
       ((emit (Sleep (rnd (rnd_next w) mod 10)) (emit (Drain Server) (emit (Write Server p) w)))
        \<lparr>rnd_next := rnd_next w + 1\<rparr>)"

definition host_or :: "string option \<Rightarrow> string option \<Rightarrow> string option" where
  "host_or host_field self_host =
     (case host_field of
        None \<Rightarrow> self_host
      | Some v \<Rightarrow> (if v = [] then self_host else Some v))"

definition write_host_line ::
  "(nat \<Rightarrow> nat) \<Rightarrow> string option \<Rightarrow> nagato_stream \<Rightarrow> world \<Rightarrow> error + world" where
  "write_host_line rnd host_field n w =
     (case host_or host_field (host n) of
        None \<Rightarrow> Inl TypeError
      | Some hv \<Rightarrow>
          (let host_line = ''hoSt:'' @ hv @ [CR, LF] in
           case random_split (drop 2 host_line) 6 rnd (rnd_next w) of
             Inl e \<Rightarrow> Inl e
           | Inr ps \<Rightarrow>
               Inr (write_segments rnd (take 2 host_line # ps)
                      (w\<lparr>rnd_next := rnd_next w + length ps\<rparr>))))"

text \<open>
  \<^verbatim>\<open>
  async def handle_request(self, req_line):
      """:type req_line: (str, urllib.parse.ParseResult, str)"""
      method, url, version = req_line
      self.last_url = url
      is_absolute = host_abs_url.get(
          '{}:{}'.format(self.host, self.port), True)
      if is_absolute:
          url = url._replace(scheme='https')
      else:
          url = url._replace(scheme='', netloc='')
      self.server_writer.write('{} {} {}\r\n'.format(
          method, url.geturl(), version).encode())
      if not is_absolute:
          [dummy fields]
          await self.server_writer.drain()
      http = HttpStream(self.proxy_reader, self.server_writer)
      [loop over the header fields]
      self.server_writer.write(b''.join(field_lines))
      if not is_absolute or host is not None:
          [host line]
      self.server_writer.write(b'\r\n')
      [loop over the body]
  \<close>
  A \<open>str\<close> has no \<open>_replace\<close>: with a \<open>Raw\<close> URL the call raises \<open>AttributeError\<close>, after
  \<open>last_url\<close> has been set.
\<close>

definition handle_request ::
  "(nat \<Rightarrow> nat) \<Rightarrow> string \<times> url_arg \<times> string \<Rightarrow> nagato_stream \<Rightarrow> world
     \<Rightarrow> (error + unit) \<times> nagato_stream \<times> world" where
  "handle_request rnd req_line n w =
     (case req_line of
        (method, url, version) \<Rightarrow>
          (let n1 = n\<lparr>last_url := Some url\<rparr>;
               is_absolute = (case dict_get (host_abs_url w) (origin_key n) of
                                None \<Rightarrow> True | Some b \<Rightarrow> b)
           in case url of
                Raw s \<Rightarrow> (Inl AttributeError, n1, w)
              | Parsed u \<Rightarrow>
                  (let url' = (if is_absolute then u\<lparr>scheme := ''https''\<rparr>
                               else u\<lparr>scheme := [], netloc := []\<rparr>);
                       w1 = emit (Write Server
                                    (method @ '' '' @ geturl url' @ '' '' @ version @ [CR, LF])) w;
                       w2 = (if \<not> is_absolute then emit (Drain Server) (dummy_fields rnd 8 w1)
                             else w1);
                       http = HttpStream Proxy (Some Server)
                   in case request_fields http [] None w2 of
                        (Inl e, h3, w3) \<Rightarrow> (Inl e, n1, w3)
                      | (Inr (field_lines, host_field), h3, w3) \<Rightarrow>
                          (let w4 = emit (Write Server (concat field_lines)) w3 in
                           case (if \<not> is_absolute \<or> host_field \<noteq> None
                                 then write_host_line rnd host_field n1 w4 else Inr w4) of
                             Inl e \<Rightarrow> (Inl e, n1, w4)
                           | Inr w5 \<Rightarrow>
                               (case tunnel_body h3 (emit (Write Server [CR, LF]) w5) of
                                  (Inl e, h6, w6) \<Rightarrow> (Inl e, n1, w6)
                                | (Inr x, h6, w6) \<Rightarrow> (Inr (), n1, w6))))))"

text \<open>
  \<^verbatim>\<open>
  async def handle_requests(self, req_line):
      """:type req_line: (str, urllib.parse.ParseResult, str)"""
      try:
          while True:
              await self.handle_request(req_line)
              req_line = await HttpStream(
                  self.proxy_reader).request_line()
      except EOFError:
          pass
  \<close>
  \<open>request_line()\<close> returns the URL as the \<open>str\<close> it read: from the second request on,
  \<open>handle_request\<close> is given a \<open>Raw\<close> URL.
\<close>

lemma handle_request_Raw:
  "handle_request rnd (method, Raw s, version) n w = (Inl AttributeError, n\<lparr>last_url := Some (Raw s)\<rparr>, w)"
  by (simp add: handle_request_def Let_def)

fun is_parsed :: "url_arg \<Rightarrow> bool" where
  "is_parsed (Parsed u) = True"
| "is_parsed (Raw s) = False"

lemma handle_request_Inr_parsed:
  "(Inr u, y) = handle_request rnd req_line n w \<Longrightarrow> is_parsed (fst (snd req_line))"
proof -
  assume a: "(Inr u, y) = handle_request rnd req_line n w"
  obtain m ua v where rl: "req_line = (m, ua, v)" by (cases req_line)
  show ?thesis
  proof (cases ua)
    case (Raw s)
    with a rl handle_request_Raw [of rnd m s v n w] show ?thesis by simp
  next
    case (Parsed p)
    with rl show ?thesis by simp
  qed
qed

function handle_requests_loop ::
  "(nat \<Rightarrow> nat) \<Rightarrow> string \<times> url_arg \<times> string \<Rightarrow> nagato_stream \<Rightarrow> world
     \<Rightarrow> (error + unit) \<times> nagato_stream \<times> world" where
  "handle_requests_loop rnd req_line n w =
     (case handle_request rnd req_line n w of
        (Inl e, n1, w1) \<Rightarrow> (Inl e, n1, w1)
      | (Inr u, n1, w1) \<Rightarrow>
          (case request_line False (HttpStream Proxy None) w1 of
             (Inl e, w2) \<Rightarrow> (Inl e, n1, w2)
           | (Inr (method, url, version), w2) \<Rightarrow>
               handle_requests_loop rnd (method, Raw url, version) n1 w2))"
  by pat_completeness auto
termination
  apply (relation "measure (\<lambda>(rnd, req_line, n, w). if is_parsed (fst (snd req_line)) then 1 else 0)")
   apply simp
  apply (auto dest!: handle_request_Inr_parsed)
  done

declare handle_requests_loop.simps [simp del]

definition handle_requests ::
  "(nat \<Rightarrow> nat) \<Rightarrow> string \<times> url_arg \<times> string \<Rightarrow> nagato_stream \<Rightarrow> world
     \<Rightarrow> (error + unit) \<times> nagato_stream \<times> world" where
  "handle_requests rnd req_line n w =
     (case handle_requests_loop rnd req_line n w of
        (Inl e, n1, w1) \<Rightarrow> (if e = EOFError then (Inr (), n1, w1) else (Inl e, n1, w1))
      | (Inr u, n1, w1) \<Rightarrow> (Inr (), n1, w1))"

section \<open>\<open>NagatoStream\<close>: CONNECT tunnels\<close>

text \<open>
  \<^verbatim>\<open>
  async def read(self, n):
      buf = await self.proxy_reader.read(n)
      if not buf:
          raise EOFError
      return buf
  \<close>
\<close>

definition nagato_read :: "int \<Rightarrow> world \<Rightarrow> (error + bytes) \<times> world" where
  "nagato_read n w =
     (case reader_read n (proxy_reader w) of
        (buf, r') \<Rightarrow>
          (if buf = [] then (Inl EOFError, w\<lparr>proxy_reader := r'\<rparr>)
           else (Inr buf, w\<lparr>proxy_reader := r'\<rparr>)))"

text \<open>
  \<open>struct.unpack('>H', b)\<close>: two bytes, big-endian; any other length raises
  \<open>struct.error\<close>.
\<close>

definition unpack_H :: "bytes \<Rightarrow> error + int" where
  "unpack_H b = (case b of [hi, lo] \<Rightarrow> Inr (256 * of_char hi + of_char lo) | _ \<Rightarrow> Inl StructError)"

text \<open>
  The part of \<open>handle_tunnel\<close> between the \<open>200\<close> response and the pumps:
  \<^verbatim>\<open>
  buf = await self.read(5)
  server_writer.write(buf)
  if buf.startswith(b'\x16\x03\x01'):
      hello_len, = struct.unpack('>H', buf[3:])
      if hello_len > 85:
          buf = await self.read(85)
          server_writer.write(buf)
          await server_writer.drain()
  \<close>
\<close>

definition tunnel_hello :: "world \<Rightarrow> (error + unit) \<times> world" where
  "tunnel_hello w =
     (case nagato_read 5 w of
        (Inl e, w1) \<Rightarrow> (Inl e, w1)
      | (Inr buf, w1) \<Rightarrow>
          (let w2 = emit (Write Server buf) w1 in
           if take 3 buf = [CHR 0x16, CHR 0x03, CHR 0x01] then
             (case unpack_H (drop 3 buf) of
                Inl e \<Rightarrow> (Inl e, w2)
              | Inr hello_len \<Rightarrow>
                  (if hello_len > 85 then
                     (case nagato_read 85 w2 of
                        (Inl e, w3) \<Rightarrow> (Inl e, w3)
                      | (Inr buf2, w3) \<Rightarrow>
                          (Inr (), emit (Drain Server) (emit (Write Server buf2) w3)))
                   else (Inr (), w2)))
           else (Inr (), w2)))"

text \<open>
  The two pumps \<open>tunnel_stream(self.proxy_reader, server_writer, ...)\<close> and
  \<open>tunnel_stream(server_reader, self.proxy_writer, ...)\<close> run concurrently; each reads
  one reader and writes one writer, and the trace lists the events of the first, then
  those of the second.
\<close>

definition tunnel_pumps :: "world \<Rightarrow> world" where
  "tunnel_pumps w = tunnel_stream Server Proxy Server (tunnel_stream Proxy Server Proxy w)"

text \<open>
  \<^verbatim>\<open>
  async def handle_tunnel(self, host, port, version):
      try:
          server_reader, server_writer \
              = await asyncio.open_connection(host, port)
      except OSError:
          self.proxy_writer.write(PROXY_RESP_504.format(version).encode())
          self.proxy_writer.close()
          return
      else:
          self.proxy_writer.write(PROXY_RESP_200.format(version).encode())
      [tunnel_hello]
      [the pumps]
  \<close>
  \<open>open_connection host port\<close> tells whether the connection is made (\<open>False\<close>:
  \<open>OSError\<close>); the attempt is recorded in the trace.
\<close>

definition handle_tunnel ::
  "(string option \<Rightarrow> int option \<Rightarrow> bool) \<Rightarrow> string option \<Rightarrow> int option \<Rightarrow> string \<Rightarrow> world
     \<Rightarrow> (error + unit) \<times> world" where
  "handle_tunnel open_connection thost tport version w =
     (let w0 = emit (Connect thost tport) w in
      if \<not> open_connection thost tport then
        (Inr (), emit (Close Proxy) (emit (Write Proxy (PROXY_RESP_504 version)) w0))
      else
        case tunnel_hello (emit (Write Proxy (PROXY_RESP_200 version)) w0) of
          (Inl e, w1) \<Rightarrow> (Inl e, w1)
        | (Inr u, w1) \<Rightarrow> (Inr (), tunnel_pumps w1))"

section \<open>\<open>handle_streams\<close>\<close>

text \<open>The loop that drops the header of a CONNECT request:
  \<open>while True: line = await http.nextline(); if line == b'\r\n': break\<close>.\<close>

function drop_header :: "http_stream \<Rightarrow> world \<Rightarrow> (error + unit) \<times> world" where
  "drop_header h w =
     (case nextline h w of
        (Inl e, w1) \<Rightarrow> (Inl e, w1)
      | (Inr line, w1) \<Rightarrow> (if line = [CR, LF] then (Inr (), w1) else drop_header h w1))"
  by pat_completeness auto
termination
  apply (relation "measure (\<lambda>(h, w). length (pending (get_reader (reader h) w)))")
   apply simp
  apply (auto dest!: nextline_Inr [OF sym])
  done

declare drop_header.simps [simp del]

text \<open>
  What \<open>handle_streams\<close> has done when it returns or starts the two tasks of a
  plaintext session: the tasks \<open>handle_requests(req_line)\<close> and \<open>handle_responses()\<close> run
  concurrently and are the functions above.
\<close>

datatype started = Done | Relay nagato_stream "string \<times> url_arg \<times> string"

text \<open>
  \<^verbatim>\<open>
  async def handle_streams(self):
      http = HttpStream(self.proxy_reader)
      req_line = await http.request_line()
      method, url, version = req_line
      if method == 'CONNECT':
          url = urlparse('//' + url)
          host, port = url.hostname, url.port
          [drop the header]
          await self.handle_tunnel(host, port, version)
          return
      url = urlparse(url)
      host, port = url.hostname, url.port
      if port is None:
          port = 80
      try:
          self.server_reader, self.server_writer \
              = await asyncio.open_connection(host, port)
          self.host, self.port = host, port
      except OSError:
          self.proxy_writer.write(PROXY_RESP_504.format(version).encode())
          self.proxy_writer.close()
          return
      reader = self.handle_requests((method, url, version))
      writer = self.handle_responses()
      await asyncio.wait([reader, writer])
  \<close>
  \<open>urlparse\<close> is the library function, with \<open>Inl\<close> for the \<open>ValueError\<close> it can raise.
\<close>

definition handle_streams ::
  "(string \<Rightarrow> error + parse_result) \<Rightarrow> (string option \<Rightarrow> int option \<Rightarrow> bool)
     \<Rightarrow> nagato_stream \<Rightarrow> world \<Rightarrow> (error + started) \<times> world" where
  "handle_streams urlparse open_connection n w =
     (let http = HttpStream Proxy None in
      case request_line False http w of
        (Inl e, w1) \<Rightarrow> (Inl e, w1)
      | (Inr (method, url, version), w1) \<Rightarrow>
          if method = ''CONNECT'' then
            (case urlparse (''//'' @ url) of
               Inl e \<Rightarrow> (Inl e, w1)
             | Inr u \<Rightarrow>
                 (case url_port u of
                    Inl e \<Rightarrow> (Inl e, w1)
                  | Inr tport \<Rightarrow>
                      (case drop_header http w1 of
                         (Inl e, w2) \<Rightarrow> (Inl e, w2)
                       | (Inr x, w2) \<Rightarrow>
                           (case handle_tunnel open_connection (hostname u) tport version w2 of
                              (Inl e, w3) \<Rightarrow> (Inl e, w3)
                            | (Inr y, w3) \<Rightarrow> (Inr Done, w3)))))
          else
            (case urlparse url of
               Inl e \<Rightarrow> (Inl e, w1)
             | Inr u \<Rightarrow>
                 (case url_port u of
                    Inl e \<Rightarrow> (Inl e, w1)
                  | Inr port0 \<Rightarrow>
                      (let sport = (case port0 of None \<Rightarrow> 80 | Some p \<Rightarrow> p);
                           w2 = emit (Connect (hostname u) (Some sport)) w1
                       in if \<not> open_connection (hostname u) (Some sport) then
                            (Inr Done,
                             emit (Close Proxy) (emit (Write Proxy (PROXY_RESP_504 version)) w2))
                          else
                            (Inr (Relay (n\<lparr>host := hostname u, port := Some sport\<rparr>)
                                        (method, Parsed u, version)), w2)))))"

text \<open>The calls of \<open>asyncio.open_connection\<close> in a trace: host and port of each, in
  order.\<close>

fun connects :: "event list \<Rightarrow> (string option \<times> int option) list" where
  "connects [] = []"
| "connects (Connect h p # es) = (h, p) # connects es"
| "connects (_ # es) = connects es"

section \<open>Sessions side by side\<close>

text \<open>
  The sessions of a process are tasks of one event loop: a task runs until it awaits
  something that is not ready. A response task tests \<open>host_abs_url.get(host) is None\<close>,
  enters \<open>handle_response\<close> and waits there for the status line (\<open>Enter\<close>); when the line
  has arrived it goes on (\<open>Resume\<close>), and the write to \<open>host_abs_url\<close> follows the parse of
  the status line with no wait in between. Nothing else in the program assigns to
  \<open>host_abs_url\<close>. The state of the process is the dict and, for each session, its
  object, its world and whether its response task is inside \<open>handle_response\<close>.
\<close>

record session =
  nagato :: nagato_stream
  sworld :: world
  inside :: bool

record process =
  policy :: "(string \<times> bool) list"
  sessions :: "session list"

datatype action = Enter nat | Resume nat

definition act :: "action \<Rightarrow> process \<Rightarrow> process option" where
  "act a p =
     (case a of
        Enter i \<Rightarrow>
          (if i < length (sessions p) \<and> \<not> inside (sessions p ! i)
              \<and> dict_get (policy p) (origin_key (nagato (sessions p ! i))) = None
           then Some (p\<lparr>sessions := (sessions p)[i := (sessions p ! i)\<lparr>inside := True\<rparr>]\<rparr>)
           else None)
      | Resume i \<Rightarrow>
          (if i < length (sessions p) \<and> inside (sessions p ! i) then
             (let s = sessions p ! i;
                  w' = snd (handle_response (nagato s) ((sworld s)\<lparr>host_abs_url := policy p\<rparr>))
              in Some \<lparr>policy = host_abs_url w',
                       sessions = (sessions p)[i := s\<lparr>sworld := w', inside := False\<rparr>]\<rparr>)
           else None))"

fun run :: "action list \<Rightarrow> process \<Rightarrow> process option" where
  "run [] p = Some p"
| "run (a # as) p = (case act a p of None \<Rightarrow> None | Some p' \<Rightarrow> run as p')"

section \<open>Relaying up to a line over the limit\<close>








lemma tunnel_chunk_Inl:
  "tunnel_chunk h w = (Inl e, w') \<Longrightarrow> e \<noteq> LimitOverrun"
  by (auto simp: tunnel_chunk_def split: if_splits option.splits dest: tunnel_chunk_error)



section \<open>Example inputs\<close>

definition no_input :: reader where
  "no_input = \<lparr>pending = [], avail = []\<rparr>"

definition fragment_world :: world where
  "fragment_world =
     \<lparr>proxy_reader = \<lparr>pending = ''GET / HT'', avail = []\<rparr>, server_reader = no_input, trace = [],
      host_abs_url = [], rnd_next = 0\<rparr>"

definition bare_lf_world :: world where
  "bare_lf_world =
     \<lparr>proxy_reader = \<lparr>pending = ''GET / HTTP/1.1'' @ [LF] @ ''Host: a'' @ [LF], avail = []\<rparr>,
      server_reader = no_input, trace = [], host_abs_url = [], rnd_next = 0\<rparr>"

definition chunk_stream :: http_stream where
  "chunk_stream = (HttpStream Server (Some Proxy))\<lparr>chunked := True, chunk_len := Some 5\<rparr>"

definition chunk_world :: world where
  "chunk_world =
     \<lparr>proxy_reader = no_input,
      server_reader = \<lparr>pending = ''Hello'' @ [CR, LF], avail = [2]\<rparr>, trace = [],
      host_abs_url = [], rnd_next = 0\<rparr>"







definition not_found_response :: bytes where
  "not_found_response =
     ''HTTP/1.1 404 Not Found'' @ [CR, LF] @ ''Content-Length: 2'' @ [CR, LF, CR, LF] @ ''no''"

definition redirect_response :: bytes where
  "redirect_response =
     ''HTTP/1.1 302 Found'' @ [CR, LF] @ ''Location: /y'' @ [CR, LF]
     @ ''Content-Length: 0'' @ [CR, LF, CR, LF]"

text \<open>What \<open>urlparse\<close> returns for the two URLs of the examples below, and a network in
  which a connection is made when a port is given.\<close>

definition example_urlparse :: "string \<Rightarrow> error + parse_result" where
  "example_urlparse s =
     (if s = ''//example.com'' then
        Inr \<lparr>scheme = [], netloc = ''example.com'', path = [], params = [], query = [],
             fragment = []\<rparr>
      else if s = ''http://example.com/'' then
        Inr \<lparr>scheme = ''http'', netloc = ''example.com'', path = ''/'', params = [], query = [],
             fragment = []\<rparr>
      else Inl ValueError)"

definition example_open_connection :: "string option \<Rightarrow> int option \<Rightarrow> bool" where
  "example_open_connection h p = (p \<noteq> None)"

definition request_world :: "bytes \<Rightarrow> world" where
  "request_world b =
     \<lparr>proxy_reader = \<lparr>pending = b, avail = []\<rparr>, server_reader = no_input, trace = [],
      host_abs_url = [], rnd_next = 0\<rparr>"

definition connect_request :: bytes where
  "connect_request =
     ''CONNECT example.com HTTP/1.1'' @ [CR, LF] @ ''Host: example.com'' @ [CR, LF, CR, LF]"

definition plain_request :: bytes where
  "plain_request =
     ''GET http://example.com/ HTTP/1.1'' @ [CR, LF] @ ''Host: example.com'' @ [CR, LF, CR, LF]"

definition new_session :: nagato_stream where
  "new_session = \<lparr>host = None, port = None, last_url = None\<rparr>"

section \<open>Properties of \<open>random_split\<close>\<close>

lemma randrange_ok:
  "0 < n \<Longrightarrow> \<exists>r. randrange n x = Inr r \<and> int r < n"
proof -
  assume n: "0 < n"
  then have "x mod nat n < nat n" by simp
  with n have "int (x mod nat n) < n" by linarith
  with n show ?thesis by (simp add: randrange_def)
qed

lemma random_split_Nil: "random_split [] step rnd i = Inr []"
  by (simp add: random_split.simps)

lemma random_split_Cons:
  "s \<noteq> [] \<Longrightarrow> randrange (step - 1) (rnd i) = Inr r \<Longrightarrow>
     random_split s step rnd i =
       (case random_split (drop (r + 1) s) step rnd (Suc i) of
          Inl e \<Rightarrow> Inl e
        | Inr ys \<Rightarrow> Inr (take (r + 1) s # ys))"
  by (subst random_split.simps) simp

lemma random_split_total:
  "2 \<le> step \<Longrightarrow> \<exists>ys. random_split s step rnd i = Inr ys"
proof (induction s step rnd i rule: random_split.induct)
  case (1 s step rnd i)
  show ?case
  proof (cases "s = []")
    case True
    then show ?thesis by (simp add: random_split_Nil)
  next
    case False
    from "1.prems" obtain r where r: "randrange (step - 1) (rnd i) = Inr r"
      using randrange_ok [of "step - 1" "rnd i"] by auto
    from "1.IH" [OF False r "1.prems"] obtain ys
      where "random_split (drop (r + 1) s) step rnd (Suc i) = Inr ys" by blast
    with random_split_Cons [of s step rnd i r, OF False r] show ?thesis by simp
  qed
qed

lemma random_split_slices:
  "2 \<le> step \<Longrightarrow> random_split s step rnd i = Inr ys \<Longrightarrow>
     concat ys = s \<and> (\<forall>y \<in> set ys. 1 \<le> int (length y) \<and> int (length y) \<le> step - 1)"
proof (induction s step rnd i arbitrary: ys rule: random_split.induct)
  case (1 s step rnd i)
  show ?case
  proof (cases "s = []")
    case True
    with "1.prems" show ?thesis by (simp add: random_split_Nil)
  next
    case False
    from "1.prems" obtain r where r: "randrange (step - 1) (rnd i) = Inr r"
      and rlt: "int r < step - 1"
      using randrange_ok [of "step - 1" "rnd i"] by auto
    from "1.prems"(2) random_split_Cons [of s step rnd i r, OF False r] obtain zs
      where zs: "random_split (drop (r + 1) s) step rnd (Suc i) = Inr zs"
        and ys: "ys = take (r + 1) s # zs"
      by (auto split: sum.splits)
    from "1.IH" [OF False r "1.prems"(1) zs]
    have ih1: "concat zs = drop (r + 1) s"
      and ih2: "\<forall>y \<in> set zs. 1 \<le> int (length y) \<and> int (length y) \<le> step - 1" by auto
    from False have "1 \<le> length s" by (cases s) auto
    then have l1: "1 \<le> int (length (take (r + 1) s))" by simp
    from rlt have l2: "int (length (take (r + 1) s)) \<le> step - 1" by simp
    from ih1 ys have "concat ys = s" by simp
    with ih2 l1 l2 ys show ?thesis by simp
  qed
qed

text \<open>
  C6. For every non-empty input \<open>s\<close> and every \<open>step \<ge> 2\<close>, whatever the random draws are,
  \<open>random_split\<close> runs to completion and yields slices that are all non-empty, have lengths in
  \<open>[1, step - 1]\<close>, and concatenate (in yield order) to the whole input.
\<close>

theorem random_split_covers:
  assumes "s \<noteq> []" and "2 \<le> step"
  shows "\<exists>ys. random_split s step rnd i = Inr ys \<and> ys \<noteq> [] \<and> concat ys = s \<and>
           (\<forall>y \<in> set ys. y \<noteq> [] \<and> 1 \<le> int (length y) \<and> int (length y) \<le> step - 1)"
proof -
  from random_split_total [OF assms(2)] obtain ys
    where ys: "random_split s step rnd i = Inr ys" by blast
  from random_split_slices [OF assms(2) ys]
  have c: "concat ys = s"
    and l: "\<forall>y \<in> set ys. 1 \<le> int (length y) \<and> int (length y) \<le> step - 1" by auto
  from c assms(1) have "ys \<noteq> []" by auto
  moreover from l have "\<forall>y \<in> set ys. y \<noteq> []" by auto
  ultimately show ?thesis using ys c l by blast
qed

theorem random_split_covers_witness:
  "''oSt:a.b'' \<noteq> [] \<and> (2::int) \<le> 6 \<and>
   random_split ''oSt:a.b'' 6 (\<lambda>k. 7 * k + 3) 0 = Inr [''oSt:'', ''a'', ''.b'']"
proof -
  have "\<exists>ys. random_split ''oSt:a.b'' 6 (\<lambda>k. 7 * k + 3) 0 = Inr ys \<and> ys \<noteq> [] \<and>
          concat ys = ''oSt:a.b'' \<and>
          (\<forall>y \<in> set ys. y \<noteq> [] \<and> 1 \<le> int (length y) \<and> int (length y) \<le> 6 - 1)"
    using random_split_covers [of "''oSt:a.b''" 6 "\<lambda>k. 7 * k + 3" 0] by simp
  then show ?thesis by (simp add: random_split.simps randrange_def)
qed

lemma tunnel_chunk_loop_spec:
  "writer h = Some s \<Longrightarrow> tunnel_chunk_loop n h w = (res, w') \<Longrightarrow>
     \<exists>bs. trace w' = trace w @ map (Write s) bs \<and> (\<forall>b \<in> set bs. length b \<le> 65536) \<and>
          pending (get_reader (reader h) w) = concat bs @ pending (get_reader (reader h) w') \<and>
          (if n \<le> int (length (pending (get_reader (reader h) w)))
           then res = Inr () \<and> int (length (concat bs)) = max 0 n
           else res = Inl EOFError \<and> pending (get_reader (reader h) w') = [])"
proof (induction n h w arbitrary: res w' rule: tunnel_chunk_loop.induct)
  case (1 n h w)
  note wr = "1.prems"(1) and run = "1.prems"(2)
  show ?case
  proof (cases "n > 0")
    case False
    with run have "res = Inr ()" "w' = w"
      by (simp_all add: tunnel_chunk_loop.simps)
    with False show ?thesis by (intro exI [of _ "[]"]) simp
  next
    case True
    let ?k = "if n > 65536 then 65536 else n"
    let ?r = "get_reader (reader h) w"
    obtain buf r' where rd: "reader_read ?k ?r = (buf, r')" by (cases "reader_read ?k ?r")
    let ?w1 = "put_reader (reader h) r' w"
    let ?w2 = "emit (Write s buf) ?w1"
    have ww: "writer_write (writer h) buf ?w1 = Inr ?w2" using wr by (simp add: writer_write_def)
    from reader_read_split [OF rd] have sp: "pending ?r = buf @ pending r'"
      and lb: "int (length buf) \<le> ?k" using True by (auto split: if_splits)
    from True lb have lb1: "length buf \<le> 65536" and lb2: "int (length buf) \<le> n" by (auto split: if_splits)
    show ?thesis
    proof (cases "buf = []")
      case e: True
      have "pending ?r = []"
      proof (rule ccontr)
        assume "pending ?r \<noteq> []"
        with reader_read_nonempty [OF rd] True have "buf \<noteq> []" by simp
        with e show False by simp
      qed
      with sp have pe: "pending r' = []" by simp
      from run True rd ww e have "res = Inl EOFError" "w' = ?w2"
        by (simp_all add: tunnel_chunk_loop.simps)
      with True \<open>pending ?r = []\<close> pe e show ?thesis
        by (intro exI [of _ "[[]]"]) simp
    next
      case ne: False
      from run True rd ww ne
      have rec: "tunnel_chunk_loop (n - int (length buf)) h ?w2 = (res, w')"
        by (simp add: tunnel_chunk_loop.simps)
      have c: "\<not> (buf = [] \<and> 0 < n - int (length buf))" using ne by simp
      from "1.IH" [OF True rd [symmetric] ww c wr rec] obtain bs where
        t: "trace w' = trace ?w2 @ map (Write s) bs"
        and l: "\<forall>b \<in> set bs. length b \<le> 65536"
        and p: "pending (get_reader (reader h) ?w2) = concat bs @ pending (get_reader (reader h) w')"
        and i: "if n - int (length buf) \<le> int (length (pending (get_reader (reader h) ?w2)))
                then res = Inr () \<and> int (length (concat bs)) = max 0 (n - int (length buf))
                else res = Inl EOFError \<and> pending (get_reader (reader h) w') = []"
        by blast
      have g: "get_reader (reader h) ?w2 = r'" by simp
      from t have t': "trace w' = trace w @ map (Write s) (buf # bs)" by simp
      from l lb1 have l': "\<forall>b \<in> set (buf # bs). length b \<le> 65536" by simp
      from p sp g have p': "pending ?r = concat (buf # bs) @ pending (get_reader (reader h) w')" by simp
      from i g sp lb2 True
      have i': "if n \<le> int (length (pending ?r))
                then res = Inr () \<and> int (length (concat (buf # bs))) = max 0 n
                else res = Inl EOFError \<and> pending (get_reader (reader h) w') = []"
        by (auto split: if_splits)
      from t' l' p' i' show ?thesis by blast
    qed
  qed
qed

section \<open>\<open>nextline\<close>\<close>

lemma nextline_result:
  assumes "nextline h w = (res, w')"
  shows "(res = Inl EOFError \<longleftrightarrow> pending (get_reader (reader h) w) = []) \<and>
         (res = Inl LimitOverrun \<longleftrightarrow>
            stream_limit < int (length (takeWhile (\<lambda>c. c \<noteq> LF) (pending (get_reader (reader h) w)))))"
proof -
  let ?r = "get_reader (reader h) w"
  obtain x r' where rl: "reader_readline ?r = (x, r')" by (cases "reader_readline ?r")
  show ?thesis
  proof (cases x)
    case (Inl e)
    with assms rl have res: "res = Inl e" by (simp add: nextline_def)
    from reader_readline_Inl [of ?r e r'] rl Inl have e: "e = LimitOverrun"
      and big: "stream_limit < int (length (takeWhile (\<lambda>c. c \<noteq> LF) (pending ?r)))" by simp_all
    from big have "pending ?r \<noteq> []" by (auto simp: stream_limit_def)
    with res e big show ?thesis by simp
  next
    case (Inr line)
    from reader_readline_Inr_iff [of ?r] rl Inr
    have small: "\<not> stream_limit < int (length (takeWhile (\<lambda>c. c \<noteq> LF) (pending ?r)))" by simp
    from reader_readline_empty [of ?r line r'] rl Inr
    have e: "line = [] \<longleftrightarrow> pending ?r = []" by simp
    from assms rl Inr have "res = (if line = [] then Inl EOFError else Inr line)"
      by (auto simp: nextline_def split: if_splits)
    with e small show ?thesis by auto
  qed
qed

text \<open>
  C4. \<open>nextline\<close> raises \<open>EOFError\<close> exactly when the stream is at its end with nothing
  left, and the reader's \<open>ValueError\<close> exactly when more than \<open>65536\<close> bytes come before
  the first \<open>LF\<close> (or, with no \<open>LF\<close> at all, before the end of the stream). In every other
  case it returns a line: a non-empty prefix of the stream, taken off the stream, that
  either ends with the first \<open>LF\<close> of the stream (no \<open>CR\<close> is asked for) or is the whole
  rest of a stream that ended without an \<open>LF\<close>.
\<close>

theorem nextline_returns:
  assumes "nextline h w = (res, w')"
  shows "(res = Inl EOFError \<longleftrightarrow> pending (get_reader (reader h) w) = []) \<and>
         (res = Inl LimitOverrun \<longleftrightarrow>
            stream_limit < int (length (takeWhile (\<lambda>c. c \<noteq> LF) (pending (get_reader (reader h) w))))) \<and>
         ((\<exists>line. res = Inr line) \<longleftrightarrow>
            pending (get_reader (reader h) w) \<noteq> [] \<and>
            int (length (takeWhile (\<lambda>c. c \<noteq> LF) (pending (get_reader (reader h) w)))) \<le> stream_limit) \<and>
         (\<forall>line. res = Inr line \<longrightarrow>
            line \<noteq> [] \<and>
            pending (get_reader (reader h) w) = line @ pending (get_reader (reader h) w') \<and>
            (last line = LF \<and> LF \<notin> set (butlast line)
             \<or> LF \<notin> set line \<and> pending (get_reader (reader h) w') = []))"
proof -
  let ?p = "pending (get_reader (reader h) w)"
  note r = nextline_result [OF assms]
  from nextline_Inl [of h w _ w'] assms
  have errs: "res = Inl e \<Longrightarrow> e = EOFError \<or> e = LimitOverrun" for e by simp
  have ex: "(\<exists>line. res = Inr line) \<longleftrightarrow>
      ?p \<noteq> [] \<and> int (length (takeWhile (\<lambda>c. c \<noteq> LF) ?p)) \<le> stream_limit"
  proof (cases res)
    case (Inl e)
    with errs [of e] r show ?thesis by auto
  next
    case (Inr line)
    with r show ?thesis by auto
  qed
  have ln: "\<forall>line. res = Inr line \<longrightarrow>
            line \<noteq> [] \<and> ?p = line @ pending (get_reader (reader h) w') \<and>
            (last line = LF \<and> LF \<notin> set (butlast line)
             \<or> LF \<notin> set line \<and> pending (get_reader (reader h) w') = [])"
  proof (intro allI impI)
    fix line assume l: "res = Inr line"
    with assms have nl: "nextline h w = (Inr line, w')" by simp
    then obtain r' where rl: "reader_readline (get_reader (reader h) w) = (Inr line, r')"
      and w': "w' = put_reader (reader h) r' w"
      by (auto simp: nextline_def split: prod.splits sum.splits if_splits)
    from w' have g: "get_reader (reader h) w' = r'" by simp
    from nextline_Inr [OF nl] have ne: "line \<noteq> []" by simp
    from reader_readline_cases [OF rl] g ne
    show "line \<noteq> [] \<and> ?p = line @ pending (get_reader (reader h) w') \<and>
          (last line = LF \<and> LF \<notin> set (butlast line)
           \<or> LF \<notin> set line \<and> pending (get_reader (reader h) w') = [])" by simp
  qed
  from r ex ln show ?thesis by blast
qed

lemma fragment_example:
  "nextline (HttpStream Proxy None) fragment_world
     = (Inr ''GET / HT'', fragment_world\<lparr>proxy_reader := no_input\<rparr>)"
  by code_simp

lemma bare_lf_example:
  "nextline (HttpStream Proxy None) bare_lf_world
     = (Inr (''GET / HTTP/1.1'' @ [LF]),
        bare_lf_world\<lparr>proxy_reader := \<lparr>pending = ''Host: a'' @ [LF], avail = []\<rparr>\<rparr>)"
  by code_simp

theorem nextline_returns_witness:
  "nextline (HttpStream Proxy None) fragment_world
     = (Inr ''GET / HT'', fragment_world\<lparr>proxy_reader := no_input\<rparr>) \<and>
   ''GET / HT'' \<noteq> [] \<and>
   (last ''GET / HT'' = LF \<and> LF \<notin> set (butlast ''GET / HT'')
    \<or> LF \<notin> set ''GET / HT'' \<and>
      pending (get_reader (reader (HttpStream Proxy None))
                 (fragment_world\<lparr>proxy_reader := no_input\<rparr>)) = [])"
proof -
  note e = fragment_example
  from nextline_returns [OF e] have
    "\<forall>line. Inr ''GET / HT'' = (Inr line :: error + bytes) \<longrightarrow>
            line \<noteq> [] \<and>
            pending (get_reader (reader (HttpStream Proxy None)) fragment_world)
              = line @ pending (get_reader (reader (HttpStream Proxy None))
                                  (fragment_world\<lparr>proxy_reader := no_input\<rparr>)) \<and>
            (last line = LF \<and> LF \<notin> set (butlast line)
             \<or> LF \<notin> set line \<and>
               pending (get_reader (reader (HttpStream Proxy None))
                          (fragment_world\<lparr>proxy_reader := no_input\<rparr>)) = [])"
    by blast
  then have "''GET / HT'' \<noteq> [] \<and>
            (last ''GET / HT'' = LF \<and> LF \<notin> set (butlast ''GET / HT'')
             \<or> LF \<notin> set ''GET / HT'' \<and>
               pending (get_reader (reader (HttpStream Proxy None))
                          (fragment_world\<lparr>proxy_reader := no_input\<rparr>)) = [])"
    by blast
  with e show ?thesis by blast
qed

theorem nextline_no_crlf_counterexample:
  "pending (proxy_reader fragment_world) = ''GET / HT'' \<and>
   fst (nextline (HttpStream Proxy None) fragment_world) = Inr ''GET / HT'' \<and>
   pending (proxy_reader bare_lf_world) = ''GET / HTTP/1.1'' @ [LF] @ ''Host: a'' @ [LF] \<and>
   fst (nextline (HttpStream Proxy None) bare_lf_world) = Inr (''GET / HTTP/1.1'' @ [LF])"
  by (simp add: fragment_example bare_lf_example) (simp add: fragment_world_def bare_lf_world_def)

section \<open>\<open>tunnel_chunk\<close>\<close>

text \<open>
  C3. \<open>tunnel_chunk\<close> copies \<open>n\<close> bytes from its reader to its writer, where \<open>n\<close> is
  \<open>body_len\<close> when the parser is not chunked and \<open>chunk_len\<close> when it is: it only writes
  to its writer, in slices of at most \<open>65536\<close> bytes, and what it writes is what it takes
  off the reader. If the stream holds \<open>n\<close> bytes it returns after exactly \<open>max 0 n\<close>
  bytes; otherwise it forwards what is left and raises \<open>EOFError\<close>.
\<close>

theorem tunnel_chunk_copies:
  assumes "writer h = Some s"
    and "\<not> chunked h \<and> n = body_len h \<or> chunked h \<and> chunk_len h = Some n"
    and "tunnel_chunk h w = (res, w')"
  shows "\<exists>bs. trace w' = trace w @ map (Write s) bs \<and> (\<forall>b \<in> set bs. length b \<le> 65536) \<and>
          pending (get_reader (reader h) w) = concat bs @ pending (get_reader (reader h) w') \<and>
          (if n \<le> int (length (pending (get_reader (reader h) w)))
           then res = Inr () \<and> int (length (concat bs)) = max 0 n
           else res = Inl EOFError \<and> pending (get_reader (reader h) w') = [])"
proof -
  from assms(2,3) have "tunnel_chunk_loop n h w = (res, w')"
    by (auto simp: tunnel_chunk_def)
  from tunnel_chunk_loop_spec [OF assms(1) this] show ?thesis .
qed

lemma chunk_example:
  "tunnel_chunk chunk_stream chunk_world =
     (Inr (), \<lparr>proxy_reader = no_input,
               server_reader = \<lparr>pending = [CR, LF], avail = []\<rparr>,
               trace = [Write Proxy ''He'', Write Proxy ''llo''],
               host_abs_url = [], rnd_next = 0\<rparr>)"
  by code_simp

lemma chunk_stream_fields:
  "writer chunk_stream = Some Proxy" "reader chunk_stream = Server" "chunked chunk_stream"
  "chunk_len chunk_stream = Some 5" "body_len chunk_stream = 0"
  by (simp_all add: chunk_stream_def HttpStream_def)

theorem tunnel_chunk_copies_witness:
  "writer chunk_stream = Some Proxy \<and> chunked chunk_stream \<and> chunk_len chunk_stream = Some 5 \<and>
   (\<exists>bs. [Write Proxy ''He'', Write Proxy ''llo''] = map (Write Proxy) bs \<and>
         (\<forall>b \<in> set bs. length b \<le> 65536) \<and>
         ''Hello'' @ [CR, LF] = concat bs @ [CR, LF])"
proof -
  let ?w' = "\<lparr>proxy_reader = no_input, server_reader = \<lparr>pending = [CR, LF], avail = []\<rparr>,
              trace = [Write Proxy ''He'', Write Proxy ''llo''],
              host_abs_url = [], rnd_next = 0\<rparr>"
  have b: "\<not> chunked chunk_stream \<and> 5 = body_len chunk_stream \<or>
      chunked chunk_stream \<and> chunk_len chunk_stream = Some 5"
    by (simp add: chunk_stream_fields)
  from tunnel_chunk_copies [OF chunk_stream_fields(1) b chunk_example]
  obtain bs where
    t: "trace ?w' = trace chunk_world @ map (Write Proxy) bs"
    and l: "\<forall>b \<in> set bs. length b \<le> 65536"
    and p: "pending (get_reader (reader chunk_stream) chunk_world)
              = concat bs @ pending (get_reader (reader chunk_stream) ?w')"
    by blast
  from t have t': "[Write Proxy ''He'', Write Proxy ''llo''] = map (Write Proxy) bs"
    by (simp add: chunk_world_def)
  from p have p': "''Hello'' @ [CR, LF] = concat bs @ [CR, LF]"
    by (simp add: chunk_stream_fields chunk_world_def)
  have "\<exists>bs. [Write Proxy ''He'', Write Proxy ''llo''] = map (Write Proxy) bs \<and>
         (\<forall>b \<in> set bs. length b \<le> 65536) \<and>
         ''Hello'' @ [CR, LF] = concat bs @ [CR, LF]"
    by (rule exI [of _ bs]) (intro conjI t' l p')
  then show ?thesis by (simp add: chunk_stream_fields)
qed

theorem tunnel_chunk_min_counterexample:
  "chunk_len chunk_stream = Some 5 \<and> body_len chunk_stream = 0 \<and>
   written Proxy (trace (snd (tunnel_chunk chunk_stream chunk_world))) = ''Hello'' \<and>
   int (length (written Proxy (trace (snd (tunnel_chunk chunk_stream chunk_world))))) \<noteq> min 5 0"
  by (simp add: chunk_example chunk_stream_fields)

section \<open>The response task\<close>






section \<open>Connections\<close>

lemma connects_append [simp]: "connects (es @ fs) = connects es @ connects fs"
  by (induction es rule: connects.induct) simp_all

lemma nextline_trace: "nextline h w = (res, w1) \<Longrightarrow> trace w1 = trace w"
  by (auto dest: nextline_put_reader)

lemma request_line_trace: "request_line False h w = (res, w1) \<Longrightarrow> trace w1 = trace w"
  by (auto simp: request_line_def nextline_tee_def tee_def split: prod.splits sum.splits
      dest: nextline_trace)

lemma drop_header_trace: "drop_header h w = (res, w') \<Longrightarrow> trace w' = trace w"
proof (induction h w arbitrary: res w' rule: drop_header.induct)
  case (1 h w)
  obtain r w1 where nl: "nextline h w = (r, w1)" by (cases "nextline h w")
  note t = nextline_trace [OF nl]
  show ?case
  proof (cases r)
    case (Inl e)
    with "1.prems" nl have "w' = w1" by (simp add: drop_header.simps)
    with t show ?thesis by simp
  next
    case (Inr line)
    show ?thesis
    proof (cases "line = [CR, LF]")
      case True
      with "1.prems" nl Inr have "w' = w1" by (simp add: drop_header.simps)
      with t show ?thesis by simp
    next
      case False
      with "1.prems" nl Inr have "drop_header h w1 = (res, w')" by (simp add: drop_header.simps)
      from "1.IH" [OF nl [symmetric] Inr False this] t show ?thesis by simp
    qed
  qed
qed

lemma tunnel_stream_loop_connects:
  "connects (trace (tunnel_stream_loop r s w)) = connects (trace w)"
proof (induction r s w rule: tunnel_stream_loop.induct)
  case (1 r s w)
  obtain buf r' where rd: "reader_read 65536 (get_reader r w) = (buf, r')"
    by (cases "reader_read 65536 (get_reader r w)")
  show ?case
  proof (cases "buf = []")
    case True
    with rd show ?thesis by (simp add: tunnel_stream_loop.simps [of r s w])
  next
    case False
    with rd have "tunnel_stream_loop r s w
        = tunnel_stream_loop r s (emit (Write s buf) (put_reader r r' w))"
      by (simp add: tunnel_stream_loop.simps [of r s w])
    with "1.IH" [OF rd [symmetric] False] show ?thesis by simp
  qed
qed

lemma tunnel_stream_connects:
  "connects (trace (tunnel_stream r s c w)) = connects (trace w)"
  by (simp add: tunnel_stream_def tunnel_stream_loop_connects)

lemma nagato_read_trace: "nagato_read k w = (res, w1) \<Longrightarrow> trace w1 = trace w"
  by (auto simp: nagato_read_def split: prod.splits if_splits)

lemma tunnel_hello_connects:
  "tunnel_hello w = (res, w') \<Longrightarrow> connects (trace w') = connects (trace w)"
  by (auto simp: tunnel_hello_def Let_def split: prod.splits sum.splits if_splits
      dest!: nagato_read_trace)

lemma handle_tunnel_connects:
  assumes "handle_tunnel open_connection thost tport version w = (res, w')"
  shows "connects (trace w') = connects (trace w) @ [(thost, tport)]"
proof (cases "open_connection thost tport")
  case False
  with assms show ?thesis by (auto simp: handle_tunnel_def Let_def)
next
  case True
  let ?w1 = "emit (Write Proxy (PROXY_RESP_200 version)) (emit (Connect thost tport) w)"
  obtain r w2 where th: "tunnel_hello ?w1 = (r, w2)" by (cases "tunnel_hello ?w1")
  from tunnel_hello_connects [OF th]
  have c: "connects (trace w2) = connects (trace w) @ [(thost, tport)]" by simp
  from assms True th have "w' = w2 \<or> w' = tunnel_pumps w2"
    by (cases r) (auto simp: handle_tunnel_def Let_def)
  with c show ?thesis by (auto simp: tunnel_pumps_def tunnel_stream_connects)
qed

lemma partition_at_absent: "c \<notin> set s \<Longrightarrow> partition_at c s = (s, False, [])"
proof -
  assume "c \<notin> set s"
  then have tw: "takeWhile (\<lambda>x. x \<noteq> c) s = s" by (auto simp: takeWhile_eq_all_conv)
  show ?thesis unfolding partition_at_def Let_def tw by simp
qed

lemma no_colon_no_port: "CHR '':'' \<notin> set (netloc u) \<Longrightarrow> snd (hostinfo u) = None"
proof -
  assume a: "CHR '':'' \<notin> set (netloc u)"
  have sub: "set (snd (snd (rpartition_at c s))) \<subseteq> set s" for c s
    by (auto simp: rpartition_at_def Let_def dest: set_takeWhileD)
  have sub2: "set (snd (snd (partition_at c s))) \<subseteq> set s" for c s
    by (auto simp: partition_at_def Let_def dest: in_set_dropD)
  let ?hi = "snd (snd (rpartition_at (CHR ''@'') (netloc u)))"
  from a sub [of "CHR ''@''" "netloc u"] have hi: "CHR '':'' \<notin> set ?hi" by auto
  note p1 = partition_at_absent [OF hi]
  obtain x b br where pb: "partition_at (CHR ''['') ?hi = (x, b, br)"
    by (cases "partition_at (CHR ''['') ?hi")
  from sub2 [of "CHR ''[''" ?hi] pb hi have br: "CHR '':'' \<notin> set br" by auto
  obtain hn y p where pc: "partition_at (CHR '']'') br = (hn, y, p)"
    by (cases "partition_at (CHR '']'') br")
  from sub2 [of "CHR '']''" br] pc br have "CHR '':'' \<notin> set p" by auto
  note p2 = partition_at_absent [OF this]
  from pb pc p1 p2 show ?thesis by (simp add: hostinfo_def Let_def)
qed

text \<open>
  C10. Let \<open>handle_streams\<close> read a request line and let \<open>urlparse\<close> give \<open>u\<close> for its URL
  (for \<open>//\<close> and the URL when the method is \<open>CONNECT\<close>), where the authority of \<open>u\<close> has no
  port part (\<open>snd (hostinfo u) = None\<close>: no colon after the host, or nothing after it);
  for \<open>CONNECT\<close>, let the rest of the header be there up to its empty line. Then \<open>u.port\<close>
  is \<open>None\<close>, and the session calls \<open>open_connection\<close> exactly once: for \<open>CONNECT\<close> with
  the host and port \<open>None\<close>, no default put in its place, and for any other method with
  the host and port \<open>80\<close>.
\<close>

theorem connect_port_not_defaulted:
  assumes "request_line False (HttpStream Proxy None) w = (Inr (method, url, version), w1)"
    and "urlparse (if method = ''CONNECT'' then ''//'' @ url else url) = Inr u"
    and "snd (hostinfo u) = None"
    and "method = ''CONNECT'' \<longrightarrow> fst (drop_header (HttpStream Proxy None) w1) = Inr ()"
    and "handle_streams urlparse open_connection n w = (res, w')"
  shows "url_port u = Inr None \<and>
         connects (trace w') = connects (trace w)
           @ [(hostname u, if method = ''CONNECT'' then None else Some 80)]"
proof -
  let ?http = "HttpStream Proxy None"
  from assms(3) have up: "url_port u = Inr None" by (simp add: url_port_def)
  from request_line_trace [OF assms(1)] have t1: "trace w1 = trace w" .
  show ?thesis
  proof (cases "method = ''CONNECT''")
    case True
    obtain r2 w2 where dh: "drop_header ?http w1 = (r2, w2)" by (cases "drop_header ?http w1")
    with assms(4) True have r2: "r2 = Inr ()" by simp
    from drop_header_trace [OF dh] t1 have t2: "trace w2 = trace w" by simp
    obtain r3 w3 where ht: "handle_tunnel open_connection (hostname u) None version w2 = (r3, w3)"
      by (cases "handle_tunnel open_connection (hostname u) None version w2")
    from assms(1,2,5) True up dh r2 ht have "w' = w3"
      by (cases r3) (simp_all add: handle_streams_def Let_def)
    with handle_tunnel_connects [OF ht] t2 True up show ?thesis by simp
  next
    case False
    let ?w2 = "emit (Connect (hostname u) (Some 80)) w1"
    from assms(1,2,5) False up
    have "w' = ?w2 \<or> w' = emit (Close Proxy) (emit (Write Proxy (PROXY_RESP_504 version)) ?w2)"
      by (auto simp: handle_streams_def Let_def split: if_splits)
    with t1 False up show ?thesis by auto
  qed
qed

lemma connect_request_line:
  "request_line False (HttpStream Proxy None) (request_world connect_request)
     = (Inr (''CONNECT'', ''example.com'', ''HTTP/1.1''),
        request_world (''Host: example.com'' @ [CR, LF, CR, LF]))"
  by code_simp

lemma connect_drop_header:
  "fst (drop_header (HttpStream Proxy None) (request_world (''Host: example.com'' @ [CR, LF, CR, LF])))
     = Inr ()"
  by code_simp

lemma connect_run:
  "handle_streams example_urlparse example_open_connection new_session (request_world connect_request)
     = (Inr Done,
        (request_world [])\<lparr>trace := [Connect (Some ''example.com'') None,
                                      Write Proxy (PROXY_RESP_504 ''HTTP/1.1''),
                                      Close Proxy]\<rparr>)"
  by code_simp

theorem connect_port_not_defaulted_witness:
  "request_line False (HttpStream Proxy None) (request_world connect_request)
     = (Inr (''CONNECT'', ''example.com'', ''HTTP/1.1''),
        request_world (''Host: example.com'' @ [CR, LF, CR, LF])) \<and>
   example_urlparse ''//example.com''
     = Inr \<lparr>scheme = [], netloc = ''example.com'', path = [], params = [], query = [],
            fragment = []\<rparr> \<and>
   connects (trace (snd (handle_streams example_urlparse example_open_connection new_session
                           (request_world connect_request))))
     = [(Some ''example.com'', None)]"
proof -
  let ?u = "\<lparr>scheme = [], netloc = ''example.com'', path = [], params = [], query = [],
             fragment = []\<rparr>"
  have up: "example_urlparse (if ''CONNECT'' = ''CONNECT'' then ''//'' @ ''example.com'' else ''example.com'')
      = Inr ?u"
    by (simp add: example_urlparse_def)
  have np: "snd (hostinfo ?u) = None" by (rule no_colon_no_port) simp
  have dh: "''CONNECT'' = ''CONNECT'' \<longrightarrow>
      fst (drop_header (HttpStream Proxy None)
             (request_world (''Host: example.com'' @ [CR, LF, CR, LF]))) = Inr ()"
    using connect_drop_header by simp
  have hn: "hostname ?u = Some ''example.com''" by code_simp
  let ?w' = "(request_world [])\<lparr>trace := [Connect (Some ''example.com'') None,
                                      Write Proxy (PROXY_RESP_504 ''HTTP/1.1''),
                                      Close Proxy]\<rparr>"
  from connect_port_not_defaulted [OF connect_request_line up np dh connect_run]
  have c: "connects (trace ?w')
          = connects (trace (request_world connect_request)) @ [(hostname ?u, None)]"
    by simp
  have t0: "trace (request_world connect_request) = []" by (simp add: request_world_def)
  have sn: "snd (handle_streams example_urlparse example_open_connection new_session
                   (request_world connect_request)) = ?w'"
    by (simp only: connect_run snd_conv)
  from c hn t0 have "connects (trace ?w') = [(Some ''example.com'', None)]" by simp
  with sn have "connects (trace (snd (handle_streams example_urlparse example_open_connection
                    new_session (request_world connect_request))))
          = [(Some ''example.com'', None)]"
    by simp
  moreover have "example_urlparse ''//example.com'' = Inr ?u" by (simp add: example_urlparse_def)
  ultimately show ?thesis using connect_request_line by blast
qed

end
